theory Spec2Isabelle
  imports Main "HOL-Library.AList"
begin

section \<open>TextAnaSearch: tokenizer, frequency tables, inverted index, retriever\<close>

text \<open>
  A shallow embedding of the Python sources \<^verbatim>\<open>text_processor.py\<close>,
  \<^verbatim>\<open>frequency_analyzer.py\<close>, \<^verbatim>\<open>simple_indexer.py\<close> and
  \<^verbatim>\<open>document_retriever.py\<close>.

  \<^item> A Python \<^verbatim>\<open>str\<close> is a \<^typ>\<open>string\<close>; a \<^typ>\<open>char\<close> stands for the Unicode code
    point of the same number, so the model covers texts whose code points are below 256.
  \<^item> A Python \<^verbatim>\<open>dict\<close> (and a \<^verbatim>\<open>Counter\<close>) keeps its keys in insertion order, and
    the order is visible in \<^verbatim>\<open>most_common\<close> and \<^verbatim>\<open>sorted\<close>; a dict is therefore an
    association list with distinct keys, a new key being appended at the end.
  \<^item> Python integers are \<^typ>\<open>int\<close>.
  \<^item> An exception is a value of \<open>py_error\<close>; a method that can raise returns a sum
    with the error on the left, paired with the object's state where the method mutates
    the object before it raises.
  \<^item> An attribute of an object that was never assigned is \<open>None\<close> in the object's record;
    reading it raises \<^verbatim>\<open>AttributeError\<close>.
\<close>

subsection \<open>Exceptions\<close>

datatype py_error =
    AttributeError string
  | KeyError string
  | FileNotFoundError string
  | IOError string

subsection \<open>Python dictionaries\<close>

type_synonym ('k, 'v) dict = "('k \<times> 'v) list"

definition dict_contains :: "('k, 'v) dict \<Rightarrow> 'k \<Rightarrow> bool" where
  "dict_contains d k = (map_of d k \<noteq> None)"

text \<open>\<^verbatim>\<open>d.get(k, default)\<close>\<close>

definition dict_get :: "('k, 'v) dict \<Rightarrow> 'k \<Rightarrow> 'v \<Rightarrow> 'v" where
  "dict_get d k dflt = (case map_of d k of None \<Rightarrow> dflt | Some v \<Rightarrow> v)"

text \<open>\<^verbatim>\<open>d[k] = v\<close>: an existing key keeps its place, a new key goes to the end.\<close>

definition dict_set :: "('k, 'v) dict \<Rightarrow> 'k \<Rightarrow> 'v \<Rightarrow> ('k, 'v) dict" where
  "dict_set d k v = AList.update k v d"

definition dict_keys :: "('k, 'v) dict \<Rightarrow> 'k list" where
  "dict_keys d = map fst d"

definition dict_values :: "('k, 'v) dict \<Rightarrow> 'v list" where
  "dict_values d = map snd d"

text \<open>
  \<^verbatim>\<open>sorted(items, key=lambda pair: pair[1], reverse=True)\<close>: a stable sort, so pairs
  with equal second components keep their relative order.
\<close>

definition sorted_by_value_reverse :: "('k \<times> int) list \<Rightarrow> ('k \<times> int) list" where
  "sorted_by_value_reverse items = sort_key (\<lambda>pair. - snd pair) items"

subsection \<open>Python strings\<close>

text \<open>\<^verbatim>\<open>str.lower\<close> on one code point below 256.\<close>

definition lower_char :: "char \<Rightarrow> char" where
  "lower_char c =
     (let n = (of_char c :: nat)
      in if (65 \<le> n \<and> n \<le> 90) \<or> (192 \<le> n \<and> n \<le> 214) \<or> (216 \<le> n \<and> n \<le> 222)
         then char_of (n + 32) else c)"

definition lower :: "string \<Rightarrow> string" where
  "lower s = map lower_char s"

text \<open>\<^verbatim>\<open>str.isspace\<close>, which is also the class \<^verbatim>\<open>\s\<close> of \<^verbatim>\<open>re\<close> on a \<^verbatim>\<open>str\<close> pattern.\<close>

definition is_space :: "char \<Rightarrow> bool" where
  "is_space c =
     (let n = (of_char c :: nat)
      in (9 \<le> n \<and> n \<le> 13) \<or> (28 \<le> n \<and> n \<le> 32) \<or> n = 133 \<or> n = 160)"

text \<open>The class \<^verbatim>\<open>\w\<close> of \<^verbatim>\<open>re\<close>: alphanumeric code points and the underscore.\<close>

definition is_word :: "char \<Rightarrow> bool" where
  "is_word c =
     (let n = (of_char c :: nat)
      in (48 \<le> n \<and> n \<le> 57) \<or> (65 \<le> n \<and> n \<le> 90) \<or> n = 95 \<or> (97 \<le> n \<and> n \<le> 122)
         \<or> n = 170 \<or> (178 \<le> n \<and> n \<le> 179) \<or> n = 181 \<or> (185 \<le> n \<and> n \<le> 186)
         \<or> (188 \<le> n \<and> n \<le> 190) \<or> (192 \<le> n \<and> n \<le> 214) \<or> (216 \<le> n \<and> n \<le> 246)
         \<or> 248 \<le> n)"

text \<open>\<^verbatim>\<open>re.sub(r'[^\w\s]', '', text)\<close>\<close>

definition remove_punctuation :: "string \<Rightarrow> string" where
  "remove_punctuation text = filter (\<lambda>c. is_word c \<or> is_space c) text"

text \<open>\<^verbatim>\<open>text.split()\<close>: the maximal runs of characters that are not whitespace.\<close>

fun split_from :: "string \<Rightarrow> string \<Rightarrow> string list" where
  "split_from cur [] = (if cur = [] then [] else [cur])"
| "split_from cur (c # cs) =
     (if is_space c then (if cur = [] then split_from [] cs else cur # split_from [] cs)
      else split_from (cur @ [c]) cs)"

definition split :: "string \<Rightarrow> string list" where
  "split text = split_from [] text"

text \<open>\<^verbatim>\<open>s.endswith(suffix)\<close>\<close>

definition endswith :: "string \<Rightarrow> string \<Rightarrow> bool" where
  "endswith s sfx = (length sfx \<le> length s \<and> drop (length s - length sfx) s = sfx)"

text \<open>\<^verbatim>\<open>l.strip('\n')\<close>: line feeds are removed at both ends.\<close>

definition strip_newlines :: "string \<Rightarrow> string" where
  "strip_newlines l =
     rev (dropWhile (\<lambda>c. c = CHR 0x0A) (rev (dropWhile (\<lambda>c. c = CHR 0x0A) l)))"

text \<open>
  \<^verbatim>\<open>f.readlines()\<close> on a file whose decoded text is given: the text is cut after every
  line feed, and each line keeps its terminator.
\<close>

fun readlines :: "string \<Rightarrow> string list" where
  "readlines [] = []"
| "readlines (c # cs) =
     (if c = CHR 0x0A then [c] # readlines cs
      else (case readlines cs of [] \<Rightarrow> [[c]] | l # ls \<Rightarrow> (c # l) # ls))"

subsection \<open>\<^verbatim>\<open>text_processor.py\<close>\<close>

record text_processor =
  docs_raw :: "(string, string) dict"
  docs_tokens :: "(string, string list) dict"
  docs_lines :: "(string, string list) dict"

text \<open>\<^verbatim>\<open>TextProcessor()\<close>: the class defines \<^verbatim>\<open>__init__\<close>, which sets the three stores.\<close>

definition TextProcessor_new :: text_processor where
  "TextProcessor_new = \<lparr>docs_raw = [], docs_tokens = [], docs_lines = []\<rparr>"

definition is_text_file :: "string \<Rightarrow> bool" where
  "is_text_file filename = endswith (lower filename) ''.txt''"

definition clean_and_tokenize :: "string \<Rightarrow> string list" where
  "clean_and_tokenize text =
     (let text1 = lower text;
          text2 = remove_punctuation text1;
          tokens = split text2
      in filter (\<lambda>tok. tok \<noteq> []) tokens)"

text \<open>
  The file system the loader sees: \<^verbatim>\<open>os.path.isdir\<close>, \<^verbatim>\<open>os.path.isfile\<close>, the triples
  \<^verbatim>\<open>(root, dirs, files)\<close> that \<^verbatim>\<open>os.walk\<close> yields, and the text of a file as text mode
  returns it, decoded and with every line ending translated to a line feed (\<open>None\<close> where
  \<^verbatim>\<open>open\<close> or the read fails). Both \<^verbatim>\<open>_read_file\<close> and \<^verbatim>\<open>_read_lines\<close> open the file; the
  file is the same for both.
\<close>

record os_env =
  isdir :: "string \<Rightarrow> bool"
  isfile :: "string \<Rightarrow> bool"
  walk :: "string \<Rightarrow> (string \<times> string list \<times> string list) list"
  file_text :: "string \<Rightarrow> string option"

text \<open>\<^verbatim>\<open>os.path.join(root, fname)\<close> of \<^verbatim>\<open>posixpath\<close>.\<close>

definition path_join :: "string \<Rightarrow> string \<Rightarrow> string" where
  "path_join a b =
     (if b \<noteq> [] \<and> hd b = CHR ''/'' then b
      else if a = [] \<or> last a = CHR ''/'' then a @ b
      else a @ ''/'' @ b)"

definition read_file :: "os_env \<Rightarrow> string \<Rightarrow> py_error + string" where
  "read_file env filepath =
     (case file_text env filepath of None \<Rightarrow> Inl (IOError filepath) | Some t \<Rightarrow> Inr t)"

definition read_lines :: "os_env \<Rightarrow> string \<Rightarrow> py_error + string list" where
  "read_lines env filepath =
     (case file_text env filepath of None \<Rightarrow> Inl (IOError filepath)
      | Some t \<Rightarrow> Inr (readlines t))"

text \<open>The first loop of \<^verbatim>\<open>process_documents\<close>: it only fills the local list \<^verbatim>\<open>to_process\<close>.\<close>

fun collect_paths :: "os_env \<Rightarrow> string list \<Rightarrow> string list \<Rightarrow> py_error + string list" where
  "collect_paths env [] to_process = Inr to_process"
| "collect_paths env (p # ps) to_process =
     (if isdir env p then
        collect_paths env ps
          (to_process @
             concat (map (\<lambda>(root, _, files). map (path_join root) (filter is_text_file files))
                         (walk env p)))
      else if isfile env p \<and> is_text_file p then collect_paths env ps (to_process @ [p])
      else Inl (FileNotFoundError p))"

text \<open>The second loop: each file is read twice and stored in the three dictionaries.\<close>

fun load_files :: "os_env \<Rightarrow> string list \<Rightarrow> text_processor \<Rightarrow> (py_error + unit) \<times> text_processor" where
  "load_files env [] tp = (Inr (), tp)"
| "load_files env (filepath # rest) tp =
     (case read_file env filepath of
        Inl e \<Rightarrow> (Inl e, tp)
      | Inr raw \<Rightarrow>
          (let tp1 = tp\<lparr>docs_raw := dict_set (docs_raw tp) filepath raw\<rparr>
           in case read_lines env filepath of
                Inl e \<Rightarrow> (Inl e, tp1)
              | Inr lignes \<Rightarrow>
                  (let tp2 = tp1\<lparr>docs_lines :=
                                   dict_set (docs_lines tp1) filepath (map strip_newlines lignes)\<rparr>;
                       tokens = clean_and_tokenize raw;
                       tp3 = tp2\<lparr>docs_tokens := dict_set (docs_tokens tp2) filepath tokens\<rparr>
                   in load_files env rest tp3)))"

definition process_documents ::
  "os_env \<Rightarrow> text_processor \<Rightarrow> string list \<Rightarrow> (py_error + unit) \<times> text_processor" where
  "process_documents env tp paths =
     (case collect_paths env paths [] of
        Inl e \<Rightarrow> (Inl e, tp)
      | Inr to_process \<Rightarrow> load_files env to_process tp)"

definition get_raw :: "text_processor \<Rightarrow> (string, string) dict" where
  "get_raw tp = docs_raw tp"

definition get_tokens :: "text_processor \<Rightarrow> (string, string list) dict" where
  "get_tokens tp = docs_tokens tp"

definition get_lines :: "text_processor \<Rightarrow> (string, string list) dict" where
  "get_lines tp = docs_lines tp"

subsection \<open>\<^verbatim>\<open>frequency_analyzer.py\<close>\<close>

type_synonym counter = "(string, int) dict"

text \<open>\<^verbatim>\<open>Counter(tokens)\<close>: one pass over the tokens, each adding one to its count.\<close>

definition Counter :: "string list \<Rightarrow> counter" where
  "Counter tokens = fold (\<lambda>elem c. dict_set c elem (dict_get c elem 0 + 1)) tokens []"

text \<open>\<^verbatim>\<open>self.update(other)\<close> of a \<^verbatim>\<open>Counter\<close> with another one: counts are added.\<close>

definition counter_update :: "counter \<Rightarrow> counter \<Rightarrow> counter" where
  "counter_update self other =
     fold (\<lambda>(elem, count) c. dict_set c elem (count + dict_get c elem 0)) other self"

text \<open>
  \<^verbatim>\<open>most_common(n)\<close> is \<^verbatim>\<open>heapq.nlargest(n, self.items(), key=itemgetter(1))\<close>, which
  returns the first \<open>n\<close> items of the stable descending sort, and nothing for \<open>n \<le> 0\<close>.
\<close>

definition most_common :: "counter \<Rightarrow> int \<Rightarrow> (string \<times> int) list" where
  "most_common c n = take (nat n) (sorted_by_value_reverse c)"

text \<open>
  The class names its initialiser \<^verbatim>\<open>_init_\<close>, with single underscores, so Python
  does not run it when \<^verbatim>\<open>FrequencyAnalyzer()\<close> is evaluated: a new object has neither
  attribute. The method can still be called by name.
\<close>

record frequency_analyzer =
  freq_per_doc :: "(string, counter) dict option"
  corpus_freq :: "counter option"

definition FrequencyAnalyzer_new :: frequency_analyzer where
  "FrequencyAnalyzer_new = \<lparr>freq_per_doc = None, corpus_freq = None\<rparr>"

definition FrequencyAnalyzer_init :: "frequency_analyzer \<Rightarrow> frequency_analyzer" where
  "FrequencyAnalyzer_init fa = fa\<lparr>freq_per_doc := Some [], corpus_freq := Some []\<rparr>"

definition compute_frequency_per_document ::
  "frequency_analyzer \<Rightarrow> (string, string list) dict \<Rightarrow> frequency_analyzer" where
  "compute_frequency_per_document fa docs_tokens' =
     fa\<lparr>freq_per_doc :=
          Some (fold (\<lambda>(filepath, tokens) d. dict_set d filepath (Counter tokens))
                     docs_tokens' [])\<rparr>"

definition compute_corpus_frequency ::
  "frequency_analyzer \<Rightarrow> (py_error + unit) \<times> frequency_analyzer" where
  "compute_corpus_frequency fa =
     (let fa1 = fa\<lparr>corpus_freq := Some []\<rparr>
      in case freq_per_doc fa1 of
           None \<Rightarrow> (Inl (AttributeError ''freq_per_doc''), fa1)
         | Some per_doc \<Rightarrow>
             (Inr (), fa1\<lparr>corpus_freq :=
                            Some (fold (\<lambda>counter c. counter_update c counter)
                                       (dict_values per_doc) [])\<rparr>))"

definition get_top_n_in_document ::
  "frequency_analyzer \<Rightarrow> string \<Rightarrow> int \<Rightarrow> py_error + (string \<times> int) list" where
  "get_top_n_in_document fa filepath n =
     (case freq_per_doc fa of
        None \<Rightarrow> Inl (AttributeError ''freq_per_doc'')
      | Some per_doc \<Rightarrow>
          (case map_of per_doc filepath of
             None \<Rightarrow> Inl (KeyError filepath)
           | Some counter \<Rightarrow> Inr (most_common counter n)))"

definition get_top_n_in_corpus ::
  "frequency_analyzer \<Rightarrow> int \<Rightarrow> py_error + (string \<times> int) list" where
  "get_top_n_in_corpus fa n =
     (case corpus_freq fa of
        None \<Rightarrow> Inl (AttributeError ''corpus_freq'')
      | Some c \<Rightarrow> Inr (most_common c n))"

subsection \<open>\<^verbatim>\<open>simple_indexer.py\<close>\<close>

type_synonym inverted_index = "(string, (string, int list) dict) dict"

text \<open>As in \<open>frequency_analyzer\<close>, \<^verbatim>\<open>_init_\<close> is not run by \<^verbatim>\<open>SimpleIndexer()\<close>.\<close>

record simple_indexer =
  index :: "inverted_index option"

definition SimpleIndexer_new :: simple_indexer where
  "SimpleIndexer_new = \<lparr>index = None\<rparr>"

definition SimpleIndexer_init :: "simple_indexer \<Rightarrow> simple_indexer" where
  "SimpleIndexer_init si = si\<lparr>index := Some []\<rparr>"

text \<open>The body of the innermost loop of \<^verbatim>\<open>build_index\<close>, for one word of one line.\<close>

definition add_occurrence :: "string \<Rightarrow> int \<Rightarrow> string \<Rightarrow> inverted_index \<Rightarrow> inverted_index" where
  "add_occurrence filepath idx mot ix =
     (let ix1 = (if \<not> dict_contains ix mot then dict_set ix mot [] else ix);
          entry = dict_get ix1 mot [];
          entry1 = (if \<not> dict_contains entry filepath then dict_set entry filepath [] else entry);
          entry2 = dict_set entry1 filepath (dict_get entry1 filepath [] @ [idx])
      in dict_set ix1 mot entry2)"

definition index_line :: "string \<Rightarrow> int \<times> string \<Rightarrow> inverted_index \<Rightarrow> inverted_index" where
  "index_line filepath numbered ix =
     (let idx = fst numbered;
          line = lower (snd numbered);
          line_clean = remove_punctuation line;
          tokens = split line_clean
      in fold (add_occurrence filepath idx) tokens ix)"

text \<open>\<^verbatim>\<open>enumerate(lines, start=1)\<close>\<close>

definition enumerate1 :: "'a list \<Rightarrow> (int \<times> 'a) list" where
  "enumerate1 xs = map (\<lambda>(i, x). (int i, x)) (enumerate 1 xs)"

definition index_document :: "string \<times> string list \<Rightarrow> inverted_index \<Rightarrow> inverted_index" where
  "index_document doc ix = fold (index_line (fst doc)) (enumerate1 (snd doc)) ix"

definition build_index :: "simple_indexer \<Rightarrow> (string, string list) dict \<Rightarrow> simple_indexer" where
  "build_index si docs_lines' = si\<lparr>index := Some (fold index_document docs_lines' [])\<rparr>"

definition search_word :: "simple_indexer \<Rightarrow> string \<Rightarrow> py_error + (string, int list) dict" where
  "search_word si word =
     (let mot = lower word
      in case index si of
           None \<Rightarrow> Inl (AttributeError ''index'')
         | Some ix \<Rightarrow> Inr (dict_get ix mot []))"

definition get_index :: "simple_indexer \<Rightarrow> py_error + inverted_index" where
  "get_index si = (case index si of None \<Rightarrow> Inl (AttributeError ''index'') | Some ix \<Rightarrow> Inr ix)"

subsection \<open>\<^verbatim>\<open>document_retriever.py\<close>\<close>

text \<open>\<^verbatim>\<open>DocumentRetriever\<close> defines \<^verbatim>\<open>__init__\<close>; both attributes are always set.\<close>

record document_retriever =
  r_index :: inverted_index
  r_freq_per_doc :: "(string, counter) dict"

definition DocumentRetriever_new ::
  "inverted_index \<Rightarrow> (string, counter) dict \<Rightarrow> document_retriever" where
  "DocumentRetriever_new ix freq = \<lparr>r_index = ix, r_freq_per_doc = freq\<rparr>"

text \<open>\<^verbatim>\<open>self.freq_per_doc.get(filepath, Counter()).get(mot, 0)\<close>\<close>

definition doc_freq :: "document_retriever \<Rightarrow> string \<Rightarrow> string \<Rightarrow> int" where
  "doc_freq r filepath mot = dict_get (dict_get (r_freq_per_doc r) filepath []) mot 0"

text \<open>The body of the inner loop of \<^verbatim>\<open>retrieve\<close>, for one document listed under \<open>mot\<close>.\<close>

definition add_score ::
  "document_retriever \<Rightarrow> string \<Rightarrow> string \<Rightarrow> (string, int) dict \<Rightarrow> (string, int) dict" where
  "add_score r mot filepath docs_with_keyword =
     (let freq = doc_freq r filepath mot;
          d1 = (if dict_contains docs_with_keyword filepath then docs_with_keyword
                else dict_set docs_with_keyword filepath 0)
      in dict_set d1 filepath (dict_get d1 filepath 0 + freq))"

text \<open>The body of the outer loop of \<^verbatim>\<open>retrieve\<close>, for one keyword.\<close>

definition score_keyword ::
  "document_retriever \<Rightarrow> string \<Rightarrow> (string, int) dict \<Rightarrow> (string, int) dict" where
  "score_keyword r kw docs_with_keyword =
     (let mot = lower kw
      in if dict_contains (r_index r) mot
         then fold (add_score r mot) (dict_keys (dict_get (r_index r) mot [])) docs_with_keyword
         else docs_with_keyword)"

definition retrieve :: "document_retriever \<Rightarrow> string list \<Rightarrow> (string \<times> int) list" where
  "retrieve r keywords =
     (if keywords = [] then []
      else sorted_by_value_reverse (fold (score_keyword r) keywords []))"

text \<open>\<^verbatim>\<open>set(self.index.get(mot, {}).keys())\<close>, as the list of the set's elements.\<close>

definition docs_for_mot :: "document_retriever \<Rightarrow> string \<Rightarrow> string list" where
  "docs_for_mot r kw = remdups (dict_keys (dict_get (r_index r) (lower kw) []))"

text \<open>\<^verbatim>\<open>set.intersection(*sets_of_docs)\<close>: the elements of the first set that are in all others.\<close>

definition set_intersection :: "string list list \<Rightarrow> string list" where
  "set_intersection sets_of_docs =
     (case sets_of_docs of
        [] \<Rightarrow> []
      | s # others \<Rightarrow> filter (\<lambda>x. list_all (\<lambda>t. x \<in> set t) others) s)"

text \<open>The score of one document in \<^verbatim>\<open>boolean_and_retrieve\<close>.\<close>

definition and_score :: "document_retriever \<Rightarrow> string list \<Rightarrow> string \<Rightarrow> int" where
  "and_score r keywords filepath =
     fold (\<lambda>kw score. score + doc_freq r filepath (lower kw)) keywords 0"

text \<open>
  \<^verbatim>\<open>for filepath in docs_intersection\<close> iterates a Python \<^verbatim>\<open>set\<close> of strings, in an order
  that depends on the strings' hashes. The order is a parameter, \<open>set_order\<close>, which maps
  the elements of a set to the sequence in which the loop visits them.
\<close>

definition boolean_and_retrieve ::
  "(string list \<Rightarrow> string list) \<Rightarrow> document_retriever \<Rightarrow> string list \<Rightarrow> (string \<times> int) list" where
  "boolean_and_retrieve set_order r keywords =
     (if keywords = [] then []
      else
        (let sets_of_docs = map (docs_for_mot r) keywords;
             docs_intersection = (if sets_of_docs \<noteq> [] then set_intersection sets_of_docs else []);
             resultats = map (\<lambda>filepath. (filepath, and_score r keywords filepath))
                             (set_order docs_intersection)
         in sorted_by_value_reverse resultats))"

subsection \<open>A one-file corpus\<close>

text \<open>
  A file system that holds the single file \<^verbatim>\<open>a.txt\<close> with the text
  \<^verbatim>\<open>The cat sat. The cat ran.\<close> on one line, and no directory.
\<close>

definition cat_env :: os_env where
  "cat_env =
     \<lparr>isdir = (\<lambda>p. False), isfile = (\<lambda>p. p = ''a.txt''), walk = (\<lambda>p. []),
      file_text = (\<lambda>p. if p = ''a.txt'' then Some ''The cat sat. The cat ran.'' else None)\<rparr>"

subsection \<open>Two retrievers\<close>

text \<open>
  The index and the frequency table of two documents, \<^verbatim>\<open>a.txt\<close> with the line
  \<^verbatim>\<open>A cat.\<close> and \<^verbatim>\<open>b.txt\<close> with the line \<^verbatim>\<open>Cat, dog; dog!\<close>.
\<close>

definition pets_retriever :: document_retriever where
  "pets_retriever =
     DocumentRetriever_new
       [(''a'', [(''a.txt'', [1])]),
        (''cat'', [(''a.txt'', [1]), (''b.txt'', [1])]),
        (''dog'', [(''b.txt'', [1, 1])])]
       [(''a.txt'', [(''a'', 1), (''cat'', 1)]),
        (''b.txt'', [(''cat'', 1), (''dog'', 2)])]"

text \<open>
  A retriever whose index is older than its frequency table: the index was built when
  \<^verbatim>\<open>a.txt\<close> held \<^verbatim>\<open>cat\<close> and \<^verbatim>\<open>b.txt\<close> held \<^verbatim>\<open>dog\<close>, the table was computed after
  \<^verbatim>\<open>a.txt\<close> had become \<^verbatim>\<open>cat dog dog dog dog dog\<close>.
\<close>

definition stale_retriever :: document_retriever where
  "stale_retriever =
     DocumentRetriever_new
       [(''cat'', [(''a.txt'', [1])]), (''dog'', [(''b.txt'', [1])])]
       [(''a.txt'', [(''cat'', 1), (''dog'', 5)]), (''b.txt'', [(''dog'', 1)])]"

subsection \<open>Notions used to state the properties\<close>

text \<open>
  A path that the first loop of \<^verbatim>\<open>process_documents\<close> rejects: it is not a directory, and
  it is not an existing file with the \<^verbatim>\<open>.txt\<close> extension.
\<close>

definition rejected_path :: "os_env \<Rightarrow> string \<Rightarrow> bool" where
  "rejected_path env p = (\<not> isdir env p \<and> \<not> (isfile env p \<and> is_text_file p))"

text \<open>The words \<^verbatim>\<open>build_index\<close> finds on one raw line.\<close>

definition line_tokens :: "string \<Rightarrow> string list" where
  "line_tokens raw_line = split (remove_punctuation (lower raw_line))"

text \<open>The line numbers at which a word occurs in a document, once per occurrence.\<close>

definition occurrence_lines :: "string \<Rightarrow> string list \<Rightarrow> int list" where
  "occurrence_lines tok lines =
     concat (map (\<lambda>(i, l). replicate (count_list (line_tokens l) tok) i) (enumerate1 lines))"

text \<open>Line lists in the index are never empty: an entry is created only to append to it.\<close>

definition no_empty_lists :: "inverted_index \<Rightarrow> bool" where
  "no_empty_lists ix =
     (\<forall>tok entry d nums. map_of ix tok = Some entry \<longrightarrow> map_of entry d = Some nums \<longrightarrow> nums \<noteq> [])"

text \<open>
  The score a result list gives a document. A document that the list does not hold has no
  score; it is read as 0.
\<close>

definition score_of :: "(string \<times> int) list \<Rightarrow> string \<Rightarrow> int" where
  "score_of results d = dict_get results d 0"

text \<open>
  The association lists that stand for a dictionary are those with distinct keys. For the
  index this matters in each entry, whose keys \<^verbatim>\<open>retrieve\<close> iterates.
\<close>

definition entries_are_dicts :: "inverted_index \<Rightarrow> bool" where
  "entries_are_dicts ix = list_all (\<lambda>(mot, entry). distinct (dict_keys entry)) ix"

text \<open>A frequency table holds numbers of occurrences: no count is negative.\<close>

definition counts_nonneg :: "(string, counter) dict \<Rightarrow> bool" where
  "counts_nonneg freq = list_all (\<lambda>(filepath, counter). list_all (\<lambda>(w, n). 0 \<le> n) counter) freq"

text \<open>
  A set iteration order: whatever the order, the loop visits the elements of the set and
  nothing else.
\<close>

definition visits_the_set :: "(string list \<Rightarrow> string list) \<Rightarrow> bool" where
  "visits_the_set set_order = (\<forall>xs. set (set_order xs) = set xs)"

section \<open>Properties\<close>

subsection \<open>The one-file scenario\<close>

text \<open>
  Claim C1, as the code has it. The document \<^verbatim>\<open>a.txt\<close> with the text
  \<^verbatim>\<open>The cat sat. The cat ran.\<close> is tokenized to the, cat, sat, the, cat, ran; loading it
  stores these tokens and the text as the single line 1; the per-document frequency table
  is the:2, cat:2, sat:1, ran:1; and after the index is built from the stored lines,
  searching for cat gives \<^verbatim>\<open>a.txt\<close> with the line list 1, 1: both occurrences are on
  line 1, and a line number is listed once per occurrence.
\<close>

theorem scenario_cat_amended:
  "clean_and_tokenize ''The cat sat. The cat ran.'' =
     [''the'', ''cat'', ''sat'', ''the'', ''cat'', ''ran'']
   \<and> process_documents cat_env TextProcessor_new [''a.txt''] =
       (Inr (), \<lparr>docs_raw = [(''a.txt'', ''The cat sat. The cat ran.'')],
                 docs_tokens = [(''a.txt'', [''the'', ''cat'', ''sat'', ''the'', ''cat'', ''ran''])],
                 docs_lines = [(''a.txt'', [''The cat sat. The cat ran.''])]\<rparr>)
   \<and> freq_per_doc (compute_frequency_per_document FrequencyAnalyzer_new
         [(''a.txt'', [''the'', ''cat'', ''sat'', ''the'', ''cat'', ''ran''])])
       = Some [(''a.txt'', [(''the'', 2), (''cat'', 2), (''sat'', 1), (''ran'', 1)])]
   \<and> search_word (build_index SimpleIndexer_new [(''a.txt'', [''The cat sat. The cat ran.''])])
         ''cat''
       = Inr [(''a.txt'', [1, 1])]"
  by code_simp

text \<open>
  Claim C1 as stated gives the line list 1, 2 for cat. The index built from the lines that
  loading \<^verbatim>\<open>a.txt\<close> stores does not return it.
\<close>

theorem scenario_cat_counterexample:
  "\<not> (search_word
         (build_index SimpleIndexer_new
            (get_lines (snd (process_documents cat_env TextProcessor_new [''a.txt''])))) ''cat''
       = Inr [(''a.txt'', [1, 2])])"
  by code_simp

subsection \<open>Objects whose initialiser never ran\<close>

text \<open>
  Claim C2 at the input \<^verbatim>\<open>FrequencyAnalyzer().compute_corpus_frequency()\<close>: the corpus
  counter is reset, then reading \<^verbatim>\<open>self.freq_per_doc\<close> raises \<^verbatim>\<open>AttributeError\<close>, because
  the initialiser \<^verbatim>\<open>_init_\<close> was not run.
\<close>

theorem fresh_analyzer_corpus_frequency_raises:
  "compute_corpus_frequency FrequencyAnalyzer_new =
     (Inl (AttributeError ''freq_per_doc''), \<lparr>freq_per_doc = None, corpus_freq = Some []\<rparr>)"
  by (simp add: compute_corpus_frequency_def FrequencyAnalyzer_new_def)

text \<open>Had the initialiser run, the call would return with an empty corpus table.\<close>

lemma corpus_frequency_after_init:
  "compute_corpus_frequency (FrequencyAnalyzer_init fa) =
     (Inr (), \<lparr>freq_per_doc = Some [], corpus_freq = Some []\<rparr>)"
  by (simp add: compute_corpus_frequency_def FrequencyAnalyzer_init_def dict_values_def)

lemma top_n_of_empty_corpus:
  "corpus_freq fa = Some [] \<Longrightarrow> get_top_n_in_corpus fa n = Inr []"
  by (simp add: get_top_n_in_corpus_def most_common_def sorted_by_value_reverse_def)

text \<open>
  Claim C8 at the input \<^verbatim>\<open>SimpleIndexer().search_word(w)\<close>: reading \<^verbatim>\<open>self.index\<close> raises
  \<^verbatim>\<open>AttributeError\<close> for every word, because the initialiser \<^verbatim>\<open>_init_\<close> was not run.
\<close>

theorem fresh_indexer_search_word_raises:
  "search_word SimpleIndexer_new w = Inl (AttributeError ''index'')"
  by (simp add: search_word_def SimpleIndexer_new_def)

text \<open>Once the attribute is set, by \<^verbatim>\<open>build_index\<close> or by \<^verbatim>\<open>_init_\<close>, the search never raises.\<close>

lemma search_word_with_index:
  "index si = Some ix \<Longrightarrow> search_word si w = Inr (dict_get ix (lower w) [])"
  by (simp add: search_word_def)

lemma search_word_after_build_index:
  "search_word (build_index si docs) w =
     Inr (dict_get (fold index_document docs []) (lower w) [])"
  by (simp add: search_word_def build_index_def)

subsection \<open>Dictionaries and counters\<close>

lemma map_of_dict_set: "map_of (dict_set d k v) = (map_of d)(k \<mapsto> v)"
  by (simp add: dict_set_def update_conv')

lemma dict_get_dict_set:
  "dict_get (dict_set d k v) k' dflt = (if k' = k then v else dict_get d k' dflt)"
  by (simp add: dict_get_def map_of_dict_set)

lemma dict_contains_dict_set:
  "dict_contains (dict_set d k v) k' = (k' = k \<or> dict_contains d k')"
  by (auto simp: dict_contains_def map_of_dict_set)

lemma dict_contains_keys: "dict_contains d k = (k \<in> set (dict_keys d))"
  by (simp add: dict_contains_def dict_keys_def map_of_eq_None_iff)

lemma dict_keys_dict_set:
  "dict_keys (dict_set d k v) = (if k \<in> set (dict_keys d) then dict_keys d else dict_keys d @ [k])"
  by (simp add: dict_keys_def dict_set_def update_keys)

lemma distinct_dict_set:
  "distinct (dict_keys d) \<Longrightarrow> distinct (dict_keys (dict_set d k v))"
  by (simp add: dict_keys_dict_set)

lemma dict_get_Nil: "dict_get [] k dflt = dflt"
  by (simp add: dict_get_def)


lemma counting_get:
  "dict_get (fold (\<lambda>elem c. dict_set c elem (dict_get c elem 0 + 1)) tokens c0) w 0 =
     dict_get c0 w 0 + int (count_list tokens w)"
  by (induction tokens arbitrary: c0) (auto simp: dict_get_dict_set)

lemma counting_distinct:
  "distinct (dict_keys c0) \<Longrightarrow>
   distinct (dict_keys (fold (\<lambda>elem c. dict_set c elem (dict_get c elem 0 + 1)) tokens c0))"
  by (induction tokens arbitrary: c0) (auto simp: distinct_dict_set)

lemma Counter_get: "dict_get (Counter tokens) w 0 = int (count_list tokens w)"
  by (simp add: Counter_def counting_get dict_get_Nil)

lemma Counter_distinct: "distinct (dict_keys (Counter tokens))"
  unfolding Counter_def by (rule counting_distinct) (simp add: dict_keys_def)

lemma Counter_snoc:
  "Counter (tokens @ [t]) = dict_set (Counter tokens) t (dict_get (Counter tokens) t 0 + 1)"
  by (simp add: Counter_def)

lemma Counter_keys_set: "set (dict_keys (Counter tokens)) = set tokens"
  by (induction tokens rule: rev_induct)
     (auto simp: Counter_snoc dict_keys_dict_set, simp add: Counter_def dict_keys_def)

lemma Counter_keys: "dict_keys (Counter tokens) = rev (remdups (rev tokens))"
proof (induction tokens rule: rev_induct)
  case Nil
  show ?case by (simp add: Counter_def dict_keys_def)
next
  case (snoc t tokens)
  then show ?case
    by (simp add: Counter_snoc dict_keys_dict_set Counter_keys_set)
qed

lemma map_of_distinct_sum:
  "distinct (map fst c) \<Longrightarrow>
   (\<Sum>(e, n) \<leftarrow> c. if e = w then n else 0) = (case map_of c w of None \<Rightarrow> (0::int) | Some n \<Rightarrow> n)"
  by (induction c) (auto simp: map_of_eq_None_iff[symmetric] split: option.splits)

lemma counter_update_get_general:
  "dict_get (counter_update self other) w 0 =
     dict_get self w 0 + (\<Sum>(e, n) \<leftarrow> other. if e = w then n else 0)"
  unfolding counter_update_def
  by (induction other arbitrary: self) (auto simp: dict_get_dict_set)

lemma counter_update_get:
  "distinct (dict_keys other) \<Longrightarrow>
   dict_get (counter_update self other) w 0 = dict_get self w 0 + dict_get other w 0"
proof -
  assume "distinct (dict_keys other)"
  then have "(\<Sum>(e, n) \<leftarrow> other. if e = w then n else 0) = dict_get other w 0"
    using map_of_distinct_sum[of other w] by (simp add: dict_keys_def dict_get_def)
  then show ?thesis by (simp only: counter_update_get_general)
qed

lemma fold_counter_update_get:
  "\<forall>c \<in> set cs. distinct (dict_keys c) \<Longrightarrow>
   dict_get (fold (\<lambda>counter c. counter_update c counter) cs acc) w 0 =
     dict_get acc w 0 + (\<Sum>c \<leftarrow> cs. dict_get c w 0)"
  by (induction cs arbitrary: acc) (auto simp: counter_update_get)


lemma set_dict_set_subset: "set (dict_set d k v) \<subseteq> insert (k, v) (set d)"
  unfolding dict_set_def by (induction d) auto

lemma per_doc_counters_distinct:
  "\<forall>c \<in> snd ` set d0. distinct (dict_keys c) \<Longrightarrow>
   \<forall>c \<in> snd ` set (fold (\<lambda>(filepath, tokens) d. dict_set d filepath (Counter tokens)) docs d0).
      distinct (dict_keys c)"
proof (induction docs arbitrary: d0)
  case Nil
  then show ?case by simp
next
  case (Cons a docs)
  obtain p toks where a: "a = (p, toks)" by (cases a)
  have "\<forall>c \<in> snd ` set (dict_set d0 p (Counter toks)). distinct (dict_keys c)"
    using Cons.prems set_dict_set_subset[of d0 p "Counter toks"] Counter_distinct
    by fastforce
  from Cons.IH[OF this] show ?case by (simp add: a)
qed

subsection \<open>The corpus table\<close>

text \<open>
  Claim C3. For every analyzer and every mapping from documents to token sequences, calling
  \<^verbatim>\<open>compute_frequency_per_document\<close> and then \<^verbatim>\<open>compute_corpus_frequency\<close> returns
  without an error, and for every token the count in the corpus table is the sum, over the
  documents of the per-document table, of that document's count for the token (a token
  that a table does not hold counts as 0, as \<^verbatim>\<open>Counter\<close> reads it).
\<close>

theorem corpus_count_is_sum_of_document_counts:
  "\<exists>per_doc corpus.
     compute_corpus_frequency (compute_frequency_per_document fa docs) =
       (Inr (), \<lparr>freq_per_doc = Some per_doc, corpus_freq = Some corpus\<rparr>)
     \<and> freq_per_doc (compute_frequency_per_document fa docs) = Some per_doc
     \<and> dict_get corpus w 0 = (\<Sum>(filepath, counter) \<leftarrow> per_doc. dict_get counter w 0)"
proof -
  let ?per = "fold (\<lambda>(filepath, tokens) d. dict_set d filepath (Counter tokens)) docs []"
  let ?corpus = "fold (\<lambda>counter c. counter_update c counter) (dict_values ?per) []"
  have d: "\<forall>c \<in> set (dict_values ?per). distinct (dict_keys c)"
    using per_doc_counters_distinct[of "[]" docs] by (simp add: dict_values_def)
  have "dict_get ?corpus w 0 = (\<Sum>c \<leftarrow> dict_values ?per. dict_get c w 0)"
    using fold_counter_update_get[OF d, of "[]" w] by (simp add: dict_get_Nil)
  also have "\<dots> = (\<Sum>(filepath, counter) \<leftarrow> ?per. dict_get counter w 0)"
    by (simp add: dict_values_def case_prod_unfold comp_def)
  finally have s: "dict_get ?corpus w 0 = (\<Sum>(filepath, counter) \<leftarrow> ?per. dict_get counter w 0)" .
  have "compute_corpus_frequency (compute_frequency_per_document fa docs) =
       (Inr (), \<lparr>freq_per_doc = Some ?per, corpus_freq = Some ?corpus\<rparr>)"
    by (simp add: compute_corpus_frequency_def compute_frequency_per_document_def)
  moreover have "freq_per_doc (compute_frequency_per_document fa docs) = Some ?per"
    by (simp add: compute_frequency_per_document_def)
  ultimately show ?thesis using s by blast
qed

text \<open>The per-document table of a dictionary holds one counter per document, in order.\<close>

lemma per_doc_table_of_dict:
  "distinct (dict_keys docs) \<Longrightarrow> set (dict_keys d0) \<inter> set (dict_keys docs) = {} \<Longrightarrow>
   fold (\<lambda>(filepath, tokens) d. dict_set d filepath (Counter tokens)) docs d0 =
     d0 @ map (\<lambda>(filepath, tokens). (filepath, Counter tokens)) docs"
proof (induction docs arbitrary: d0)
  case Nil
  then show ?case by simp
next
  case (Cons a docs)
  obtain p toks where a: "a = (p, toks)" by (cases a)
  have notin: "p \<notin> set (dict_keys d0)" using Cons.prems by (auto simp: a dict_keys_def)
  then have upd: "dict_set d0 p (Counter toks) = d0 @ [(p, Counter toks)]"
    unfolding dict_set_def dict_keys_def by (induction d0) auto
  have "fold (\<lambda>(filepath, tokens) d. dict_set d filepath (Counter tokens)) docs (d0 @ [(p, Counter toks)])
        = (d0 @ [(p, Counter toks)]) @ map (\<lambda>(filepath, tokens). (filepath, Counter tokens)) docs"
    using Cons.prems by (intro Cons.IH) (auto simp: a dict_keys_def)
  then show ?case by (simp add: a upd)
qed

subsection \<open>Rankings\<close>

lemma Counter_items:
  assumes "(w, c) \<in> set (Counter tokens)"
  shows "c = int (count_list tokens w)"
proof -
  have "distinct (map fst (Counter tokens))"
    using Counter_distinct[of tokens] by (simp add: dict_keys_def)
  then have "map_of (Counter tokens) w = Some c"
    using assms by simp
  then have "dict_get (Counter tokens) w 0 = c"
    by (simp add: dict_get_def)
  then show ?thesis by (simp add: Counter_get)
qed

lemma Counter_set:
  "set (Counter tokens) = {(w, int (count_list tokens w)) | w. w \<in> set tokens}"
proof (intro set_eqI iffI)
  fix p assume p: "p \<in> set (Counter tokens)"
  obtain w c where pc: "p = (w, c)" by (cases p)
  have "w \<in> set (dict_keys (Counter tokens))"
    using p unfolding pc dict_keys_def by force
  then have "w \<in> set tokens" by (simp add: Counter_keys_set)
  moreover have "c = int (count_list tokens w)" using p Counter_items unfolding pc by blast
  ultimately show "p \<in> {(w, int (count_list tokens w)) | w. w \<in> set tokens}"
    unfolding pc by blast
next
  fix p assume "p \<in> {(w, int (count_list tokens w)) | w. w \<in> set tokens}"
  then obtain w where w: "p = (w, int (count_list tokens w))" "w \<in> set tokens" by blast
  then have "w \<in> set (dict_keys (Counter tokens))" by (simp add: Counter_keys_set)
  then obtain c where c: "(w, c) \<in> set (Counter tokens)"
    unfolding dict_keys_def by auto
  then have "c = int (count_list tokens w)" by (rule Counter_items)
  then show "p \<in> set (Counter tokens)" using c w by simp
qed

lemma Counter_length: "length (Counter tokens) = card (set tokens)"
proof -
  have "length (Counter tokens) = length (dict_keys (Counter tokens))"
    by (simp add: dict_keys_def)
  also have "\<dots> = length (remdups (rev tokens))" by (simp add: Counter_keys)
  also have "\<dots> = card (set tokens)" by (simp add: length_remdups_card_conv)
  finally show ?thesis .
qed

lemma ranking_descending:
  "sorted_wrt (\<lambda>p q. snd q \<le> snd p) (sorted_by_value_reverse items)"
proof -
  have "sorted (map (\<lambda>pair. - snd pair) (sorted_by_value_reverse items))"
    unfolding sorted_by_value_reverse_def by (rule sorted_sort_key)
  then show ?thesis by (simp add: sorted_map)
qed

lemma ranking_stable:
  "filter (\<lambda>p. snd p = k) (sorted_by_value_reverse items) = filter (\<lambda>p. snd p = k) items"
proof -
  have "filter (\<lambda>p. - snd p = - k) (sort_key (\<lambda>pair. - snd pair) items)
          = filter (\<lambda>p. - snd p = - k) items"
    by (rule sort_key_stable)
  then show ?thesis by (simp add: sorted_by_value_reverse_def)
qed

lemma ranking_set: "set (sorted_by_value_reverse items) = set items"
  by (simp add: sorted_by_value_reverse_def)

lemma ranking_length: "length (sorted_by_value_reverse items) = length items"
  by (simp add: sorted_by_value_reverse_def)

lemma Counter_ties:
  "map fst (filter (\<lambda>p. snd p = k) (Counter tokens)) =
     filter (\<lambda>w. int (count_list tokens w) = k) (rev (remdups (rev tokens)))"
proof -
  have "filter (\<lambda>p. snd p = k) (Counter tokens)
          = filter (\<lambda>p. int (count_list tokens (fst p)) = k) (Counter tokens)"
    by (rule filter_cong) (auto dest: Counter_items)
  then have "map fst (filter (\<lambda>p. snd p = k) (Counter tokens))
          = filter (\<lambda>w. int (count_list tokens w) = k) (map fst (Counter tokens))"
    by (simp add: filter_map comp_def)
  then show ?thesis using Counter_keys[of tokens] by (simp add: dict_keys_def)
qed

lemma per_doc_lookup:
  assumes "distinct (dict_keys docs)"
  shows "\<exists>per_doc. freq_per_doc (compute_frequency_per_document fa docs) = Some per_doc
           \<and> map_of per_doc D = map_option Counter (map_of docs D)"
proof -
  have "fold (\<lambda>(filepath, tokens) d. dict_set d filepath (Counter tokens)) docs []
          = map (\<lambda>(filepath, tokens). (filepath, Counter tokens)) docs"
    using per_doc_table_of_dict[OF assms, of "[]"] by (simp add: dict_keys_def)
  then show ?thesis
    by (simp add: compute_frequency_per_document_def map_of_map)
qed

lemma top_n_absent:
  assumes "distinct (dict_keys docs)" "D \<notin> set (dict_keys docs)"
  shows "get_top_n_in_document (compute_frequency_per_document fa docs) D N = Inl (KeyError D)"
proof -
  obtain per_doc where per: "freq_per_doc (compute_frequency_per_document fa docs) = Some per_doc"
    "map_of per_doc D = map_option Counter (map_of docs D)"
    using per_doc_lookup[OF assms(1)] by blast
  have "map_of docs D = None" using assms(2) by (simp add: dict_keys_def map_of_eq_None_iff)
  then show ?thesis using per by (simp add: get_top_n_in_document_def)
qed

lemma top_n_present:
  assumes "distinct (dict_keys docs)" "map_of docs D = Some tokens"
  shows "get_top_n_in_document (compute_frequency_per_document fa docs) D N
           = Inr (take (nat N) (sorted_by_value_reverse (Counter tokens)))"
proof -
  obtain per_doc where per: "freq_per_doc (compute_frequency_per_document fa docs) = Some per_doc"
    "map_of per_doc D = map_option Counter (map_of docs D)"
    using per_doc_lookup[OF assms(1)] by blast
  show ?thesis using per assms(2) by (simp add: get_top_n_in_document_def most_common_def)
qed

text \<open>
  Claim C6, as the code has it. Let the analyzer be any analyzer after a call of
  \<^verbatim>\<open>compute_frequency_per_document\<close> on a dictionary \<open>docs\<close>. Then
  \<^verbatim>\<open>get_top_n_in_document(D, N)\<close> fails if and only if \<open>D\<close> is not a key of \<open>docs\<close>, the
  mapping of that most recent call, and it then fails with \<^verbatim>\<open>KeyError\<close> (NotFound) naming \<open>D\<close>.
  Otherwise it returns the first \<open>N\<close> pairs of a ranking that holds each distinct word of
  the document once with its number of occurrences, is sorted by count descending, and
  lists the words of equal count in the order of their first occurrence in the document;
  when \<open>N\<close> is at least the number of distinct words the whole ranking is returned.
\<close>

theorem top_n_in_document_amended:
  assumes "distinct (dict_keys docs)"
  shows "((\<exists>e. get_top_n_in_document (compute_frequency_per_document fa docs) D N = Inl e)
            \<longleftrightarrow> D \<notin> set (dict_keys docs))
       \<and> (D \<notin> set (dict_keys docs) \<longrightarrow>
            get_top_n_in_document (compute_frequency_per_document fa docs) D N = Inl (KeyError D))
       \<and> (\<forall>tokens. map_of docs D = Some tokens \<longrightarrow>
            (\<exists>ranking.
               get_top_n_in_document (compute_frequency_per_document fa docs) D N
                 = Inr (take (nat N) ranking)
               \<and> set ranking = {(w, int (count_list tokens w)) | w. w \<in> set tokens}
               \<and> length ranking = card (set tokens)
               \<and> sorted_wrt (\<lambda>p q. snd q \<le> snd p) ranking
               \<and> (\<forall>k. map fst (filter (\<lambda>p. snd p = k) ranking) =
                        filter (\<lambda>w. int (count_list tokens w) = k) (rev (remdups (rev tokens))))
               \<and> (int (card (set tokens)) \<le> N \<longrightarrow> take (nat N) ranking = ranking)))"
proof (intro conjI allI impI)
  show "(\<exists>e. get_top_n_in_document (compute_frequency_per_document fa docs) D N = Inl e)
            \<longleftrightarrow> D \<notin> set (dict_keys docs)"
  proof (cases "map_of docs D")
    case None
    then have "D \<notin> set (dict_keys docs)" by (simp add: dict_keys_def map_of_eq_None_iff)
    then show ?thesis using top_n_absent[OF assms] by simp
  next
    case (Some tokens)
    then have "D \<in> set (dict_keys docs)"
      by (simp add: dict_keys_def) (metis domI dom_map_of_conv_image_fst image_set)
    then show ?thesis using top_n_present[OF assms Some] by simp
  qed
next
  assume "D \<notin> set (dict_keys docs)"
  then show "get_top_n_in_document (compute_frequency_per_document fa docs) D N = Inl (KeyError D)"
    by (rule top_n_absent[OF assms])
next
  fix tokens assume tok: "map_of docs D = Some tokens"
  let ?r = "sorted_by_value_reverse (Counter tokens)"
  have 1: "get_top_n_in_document (compute_frequency_per_document fa docs) D N
                 = Inr (take (nat N) ?r)"
    by (rule top_n_present[OF assms tok])
  have 2: "set ?r = {(w, int (count_list tokens w)) | w. w \<in> set tokens}"
    by (simp only: ranking_set Counter_set)
  have 3: "length ?r = card (set tokens)"
    by (simp only: ranking_length Counter_length)
  have 4: "sorted_wrt (\<lambda>p q. snd q \<le> snd p) ?r" by (rule ranking_descending)
  have 5: "\<forall>k. map fst (filter (\<lambda>p. snd p = k) ?r) =
                        filter (\<lambda>w. int (count_list tokens w) = k) (rev (remdups (rev tokens)))"
    by (simp only: ranking_stable Counter_ties) simp
  have 6: "int (card (set tokens)) \<le> N \<longrightarrow> take (nat N) ?r = ?r"
    using 3 by simp
  show "\<exists>ranking.
               get_top_n_in_document (compute_frequency_per_document fa docs) D N
                 = Inr (take (nat N) ranking)
               \<and> set ranking = {(w, int (count_list tokens w)) | w. w \<in> set tokens}
               \<and> length ranking = card (set tokens)
               \<and> sorted_wrt (\<lambda>p q. snd q \<le> snd p) ranking
               \<and> (\<forall>k. map fst (filter (\<lambda>p. snd p = k) ranking) =
                        filter (\<lambda>w. int (count_list tokens w) = k) (rev (remdups (rev tokens))))
               \<and> (int (card (set tokens)) \<le> N \<longrightarrow> take (nat N) ranking = ranking)"
    apply (rule exI[of _ ?r])
    apply (intro conjI)
         apply (rule 1)
        apply (rule 2)
       apply (rule 3)
      apply (rule 4)
     apply (rule 5)
    apply (rule 6)
    done
qed

theorem top_n_in_document_witness:
  "distinct (dict_keys [(''a.txt'', [''b'', ''a'', ''c'', ''a'', ''b''])])
   \<and> ''z.txt'' \<notin> set (dict_keys [(''a.txt'', [''b'', ''a'', ''c'', ''a'', ''b''])])
   \<and> get_top_n_in_document
       (compute_frequency_per_document FrequencyAnalyzer_new
          [(''a.txt'', [''b'', ''a'', ''c'', ''a'', ''b''])]) ''z.txt'' 2 = Inl (KeyError ''z.txt'')
   \<and> map_of [(''a.txt'', [''b'', ''a'', ''c'', ''a'', ''b''])] ''a.txt''
        = Some [''b'', ''a'', ''c'', ''a'', ''b'']
   \<and> (\<exists>ranking. get_top_n_in_document
       (compute_frequency_per_document FrequencyAnalyzer_new
          [(''a.txt'', [''b'', ''a'', ''c'', ''a'', ''b''])]) ''a.txt'' 2 = Inr (take (nat 2) ranking)
        \<and> sorted_wrt (\<lambda>p q. snd q \<le> snd p) ranking)"
proof -
  let ?docs = "[(''a.txt'', [''b'', ''a'', ''c'', ''a'', ''b''])]"
  have d: "distinct (dict_keys ?docs)"
    by (simp add: dict_keys_def)
  have z: "''z.txt'' \<notin> set (dict_keys ?docs)"
    by (simp add: dict_keys_def)
  have m: "map_of ?docs ''a.txt'' = Some [''b'', ''a'', ''c'', ''a'', ''b'']"
    by simp
  have 1: "get_top_n_in_document (compute_frequency_per_document FrequencyAnalyzer_new ?docs)
             ''z.txt'' 2 = Inl (KeyError ''z.txt'')"
    using top_n_in_document_amended[OF d, of FrequencyAnalyzer_new "''z.txt''" 2] z
    by (elim conjE) (erule mp)
  have 2: "\<exists>ranking. get_top_n_in_document
       (compute_frequency_per_document FrequencyAnalyzer_new ?docs) ''a.txt'' 2
          = Inr (take (nat 2) ranking)
        \<and> sorted_wrt (\<lambda>p q. snd q \<le> snd p) ranking"
  proof -
    from top_n_in_document_amended[OF d, of FrequencyAnalyzer_new "''a.txt''" 2]
    have "\<forall>tokens. map_of ?docs ''a.txt'' = Some tokens \<longrightarrow>
            (\<exists>ranking.
               get_top_n_in_document (compute_frequency_per_document FrequencyAnalyzer_new ?docs) ''a.txt'' 2
                 = Inr (take (nat 2) ranking)
               \<and> set ranking = {(w, int (count_list tokens w)) | w. w \<in> set tokens}
               \<and> length ranking = card (set tokens)
               \<and> sorted_wrt (\<lambda>p q. snd q \<le> snd p) ranking
               \<and> (\<forall>k. map fst (filter (\<lambda>p. snd p = k) ranking) =
                        filter (\<lambda>w. int (count_list tokens w) = k) (rev (remdups (rev tokens))))
               \<and> (int (card (set tokens)) \<le> 2 \<longrightarrow> take (nat 2) ranking = ranking))"
      by (elim conjE)
    from this[rule_format, OF m] obtain ranking where
      "get_top_n_in_document (compute_frequency_per_document FrequencyAnalyzer_new ?docs) ''a.txt'' 2
                 = Inr (take (nat 2) ranking)"
      "sorted_wrt (\<lambda>p q. snd q \<le> snd p) ranking"
      by (elim exE conjE)
    then show ?thesis by (intro exI conjI)
  qed
  from d z 1 m 2 show ?thesis by (intro conjI)
qed

text \<open>The two most frequent words of b, a, c, a, b: the tie is kept in the order b, a.\<close>

lemma top_n_example:
  "get_top_n_in_document
       (compute_frequency_per_document FrequencyAnalyzer_new
          [(''a.txt'', [''b'', ''a'', ''c'', ''a'', ''b''])]) ''a.txt'' 2 = Inr [(''b'', 2), (''a'', 2)]"
  by code_simp

text \<open>
  Claim C6 as stated makes the failure equivalent to the document never having been
  analyzed. A document analyzed by an earlier call and absent from the latest one is not
  found: each call replaces the per-document table.
\<close>

theorem top_n_reanalysis_counterexample:
  "\<not> ((get_top_n_in_document
         (compute_frequency_per_document
            (compute_frequency_per_document FrequencyAnalyzer_new [(''a.txt'', [''cat''])])
            [(''b.txt'', [''dog''])])
         ''a.txt'' 1 = Inl (KeyError ''a.txt''))
       \<longleftrightarrow> (''a.txt'' \<notin> set (dict_keys [(''a.txt'', [''cat''])])
            \<and> ''a.txt'' \<notin> set (dict_keys [(''b.txt'', [''dog''])])))"
  by code_simp

subsection \<open>Loading: a rejected path aborts the call\<close>

lemma collect_paths_rejected:
  "find (rejected_path env) paths = Some q \<Longrightarrow>
   collect_paths env paths to_process = Inl (FileNotFoundError q)"
  by (induction paths arbitrary: to_process) (auto simp: rejected_path_def split: if_splits)

lemma collect_paths_accepted:
  "find (rejected_path env) paths = None \<Longrightarrow>
   \<exists>files. collect_paths env paths to_process = Inr files"
  by (induction paths arbitrary: to_process) (auto simp: rejected_path_def split: if_splits)

text \<open>
  Claim C7. If the path list holds a path that is neither a directory nor an existing
  \<^verbatim>\<open>.txt\<close> file, \<^verbatim>\<open>process_documents\<close> raises \<^verbatim>\<open>FileNotFoundError\<close> (NotFound) naming such a
  path of the list, namely the first one, and the three stores are exactly as they were
  before the call, whatever earlier calls had loaded.
\<close>

theorem process_documents_rejected_path:
  assumes "p \<in> set paths" and "rejected_path env p"
  shows "\<exists>q. find (rejected_path env) paths = Some q \<and> q \<in> set paths \<and> rejected_path env q
           \<and> process_documents env tp paths = (Inl (FileNotFoundError q), tp)"
proof -
  have "find (rejected_path env) paths \<noteq> None"
    using assms by (auto simp: find_None_iff)
  then obtain q where q: "find (rejected_path env) paths = Some q" by blast
  then have "q \<in> set paths" "rejected_path env q"
    by (auto simp: find_Some_iff)
  moreover have "process_documents env tp paths = (Inl (FileNotFoundError q), tp)"
    by (simp add: process_documents_def collect_paths_rejected[OF q])
  ultimately show ?thesis using q by blast
qed

theorem process_documents_rejected_path_witness:
  "''missing.txt'' \<in> set [''a.txt'', ''missing.txt'']
   \<and> rejected_path cat_env ''missing.txt''
   \<and> process_documents cat_env (snd (process_documents cat_env TextProcessor_new [''a.txt'']))
        [''a.txt'', ''missing.txt'']
       = (Inl (FileNotFoundError ''missing.txt''),
          snd (process_documents cat_env TextProcessor_new [''a.txt'']))"
proof -
  have a: "''missing.txt'' \<in> set [''a.txt'', ''missing.txt'']" by simp
  have b: "rejected_path cat_env ''missing.txt''" by code_simp
  have f: "find (rejected_path cat_env) [''a.txt'', ''missing.txt''] = Some ''missing.txt''"
    by code_simp
  from process_documents_rejected_path[OF a b,
         of "snd (process_documents cat_env TextProcessor_new [''a.txt''])"] f
  have "process_documents cat_env (snd (process_documents cat_env TextProcessor_new [''a.txt'']))
        [''a.txt'', ''missing.txt'']
       = (Inl (FileNotFoundError ''missing.txt''),
          snd (process_documents cat_env TextProcessor_new [''a.txt'']))"
    by (elim exE conjE) simp
  with a b show ?thesis by (intro conjI)
qed

lemma process_documents_first_rejected:
  "find (rejected_path env) paths = Some q \<Longrightarrow>
   process_documents env tp paths = (Inl (FileNotFoundError q), tp)"
  by (simp add: process_documents_def collect_paths_rejected)

subsection \<open>The inverted index\<close>

lemma add_occurrence_lines:
  "dict_get (dict_get (add_occurrence filepath idx mot ix) tok []) d [] =
     dict_get (dict_get ix tok []) d [] @ (if tok = mot \<and> d = filepath then [idx] else [])"
  by (auto simp: add_occurrence_def Let_def dict_get_def dict_contains_def map_of_dict_set
           split: option.splits)

lemma count_list_replicate: "count_list (replicate n a) k = (if k = a then n else 0)"
  by (induction n) auto

lemma fold_add_occurrence_lines:
  "dict_get (dict_get (fold (add_occurrence filepath idx) tokens ix) tok []) d [] =
     dict_get (dict_get ix tok []) d []
       @ (if d = filepath then replicate (count_list tokens tok) idx else [])"
proof (induction tokens arbitrary: ix)
  case Nil
  show ?case by simp
next
  case (Cons mot tokens)
  show ?case
    by (simp add: Cons.IH add_occurrence_lines replicate_append_same)
qed

lemma index_line_lines:
  "dict_get (dict_get (index_line filepath (idx, raw_line) ix) tok []) d [] =
     dict_get (dict_get ix tok []) d []
       @ (if d = filepath then replicate (count_list (line_tokens raw_line) tok) idx else [])"
  by (simp add: index_line_def line_tokens_def Let_def fold_add_occurrence_lines)

lemma fold_index_line_lines:
  "dict_get (dict_get (fold (index_line filepath) numbered ix) tok []) d [] =
     dict_get (dict_get ix tok []) d []
       @ (if d = filepath
          then concat (map (\<lambda>(i, l). replicate (count_list (line_tokens l) tok) i) numbered)
          else [])"
proof (induction numbered arbitrary: ix)
  case Nil
  show ?case by simp
next
  case (Cons a numbered)
  obtain i l where a: "a = (i, l)" by (cases a)
  show ?case by (simp add: a Cons.IH index_line_lines)
qed

lemma index_document_lines:
  "dict_get (dict_get (index_document (filepath, lines) ix) tok []) d [] =
     dict_get (dict_get ix tok []) d []
       @ (if d = filepath then occurrence_lines tok lines else [])"
  by (simp add: index_document_def occurrence_lines_def fold_index_line_lines)

lemma fold_index_document_lines:
  "dict_get (dict_get (fold index_document docs ix) tok []) d [] =
     dict_get (dict_get ix tok []) d []
       @ concat (map (\<lambda>(filepath, lines). if filepath = d then occurrence_lines tok lines else [])
                     docs)"
proof (induction docs arbitrary: ix)
  case Nil
  show ?case by simp
next
  case (Cons a docs)
  obtain p ls where a: "a = (p, ls)" by (cases a)
  show ?case by (auto simp: a Cons.IH index_document_lines)
qed

lemma concat_other_documents:
  "d \<notin> fst ` set docs \<Longrightarrow>
   concat (map (\<lambda>(filepath, lines). if filepath = d then f lines else []) docs) = []"
  by (induction docs) auto

lemma concat_one_document:
  "distinct (map fst docs) \<Longrightarrow> map_of docs d = Some lines \<Longrightarrow>
   concat (map (\<lambda>(filepath, lines). if filepath = d then f lines else []) docs) = f lines"
proof (induction docs)
  case Nil
  then show ?case by simp
next
  case (Cons a docs)
  obtain p ls where a: "a = (p, ls)" by (cases a)
  show ?case
  proof (cases "p = d")
    case True
    then have "d \<notin> fst ` set docs" using Cons.prems(1) by (simp add: a)
    then show ?thesis using Cons.prems(2) True by (simp add: a concat_other_documents)
  next
    case False
    then show ?thesis using Cons by (simp add: a)
  qed
qed

lemma add_occurrence_no_empty:
  "no_empty_lists ix \<Longrightarrow> no_empty_lists (add_occurrence filepath idx mot ix)"
  unfolding no_empty_lists_def add_occurrence_def Let_def
  by (auto simp: map_of_dict_set dict_get_def dict_contains_def split: if_splits option.splits)

lemma fold_add_occurrence_no_empty:
  "no_empty_lists ix \<Longrightarrow> no_empty_lists (fold (add_occurrence filepath idx) tokens ix)"
  by (induction tokens arbitrary: ix) (auto simp: add_occurrence_no_empty)

lemma index_line_no_empty:
  "no_empty_lists ix \<Longrightarrow> no_empty_lists (index_line filepath numbered ix)"
  by (simp add: index_line_def Let_def fold_add_occurrence_no_empty)

lemma fold_index_line_no_empty:
  "no_empty_lists ix \<Longrightarrow> no_empty_lists (fold (index_line filepath) numbered ix)"
  by (induction numbered arbitrary: ix) (auto simp: index_line_no_empty)

lemma fold_index_document_no_empty:
  "no_empty_lists ix \<Longrightarrow> no_empty_lists (fold index_document docs ix)"
  by (induction docs arbitrary: ix) (auto simp: index_document_def fold_index_line_no_empty)

lemma occurrence_from_set:
  "k \<in> set (concat (map (\<lambda>(i, l). replicate (c l) i)
                         (map (\<lambda>(i, x). (int i, x)) (enumerate s xs))))
   \<Longrightarrow> int s \<le> k \<and> k < int s + int (length xs)"
proof (induction xs arbitrary: s)
  case Nil
  then show ?case by simp
next
  case (Cons x xs)
  from Cons.prems have "k \<in> set (replicate (c x) (int s)) \<or>
    k \<in> set (concat (map (\<lambda>(i, l). replicate (c l) i)
                         (map (\<lambda>(i, x). (int i, x)) (enumerate (Suc s) xs))))"
    by simp
  then show ?case
  proof
    assume "k \<in> set (replicate (c x) (int s))"
    then show ?thesis by (auto split: if_splits)
  next
    assume "k \<in> set (concat (map (\<lambda>(i, l). replicate (c l) i)
                         (map (\<lambda>(i, x). (int i, x)) (enumerate (Suc s) xs))))"
    from Cons.IH[OF this] show ?thesis by simp
  qed
qed

lemma occurrence_from_sorted:
  "sorted (concat (map (\<lambda>(i, l). replicate (c l) i)
                       (map (\<lambda>(i, x). (int i, x)) (enumerate s xs))))"
proof (induction xs arbitrary: s)
  case Nil
  show ?case by simp
next
  case (Cons x xs)
  show ?case
    using Cons.IH[of "Suc s"] occurrence_from_set[of _ c "Suc s" xs]
    by (fastforce simp: sorted_append)
qed

lemma occurrence_from_count:
  "int s \<le> k \<Longrightarrow> k < int s + int (length xs) \<Longrightarrow>
   count_list (concat (map (\<lambda>(i, l). replicate (c l) i)
                           (map (\<lambda>(i, x). (int i, x)) (enumerate s xs)))) k
     = c (xs ! (nat k - s))"
proof (induction xs arbitrary: s)
  case Nil
  then show ?case by simp
next
  case (Cons x xs)
  let ?rest = "concat (map (\<lambda>(i, l). replicate (c l) i)
                           (map (\<lambda>(i, x). (int i, x)) (enumerate (Suc s) xs)))"
  have split: "count_list (concat (map (\<lambda>(i, l). replicate (c l) i)
                  (map (\<lambda>(i, x). (int i, x)) (enumerate s (x # xs))))) k
        = (if k = int s then c x else 0) + count_list ?rest k"
    by (simp add: count_list_replicate)
  show ?case
  proof (cases "k = int s")
    case True
    have "k \<notin> set ?rest"
    proof
      assume "k \<in> set ?rest"
      from occurrence_from_set[OF this] have "int (Suc s) \<le> k" by (rule conjunct1)
      with True show False by simp
    qed
    then have "count_list ?rest k = 0" by (rule count_notin)
    then show ?thesis using split True by simp
  next
    case False
    then have k: "int (Suc s) \<le> k" "k < int (Suc s) + int (length xs)"
      using Cons.prems by auto
    have "nat k - s = Suc (nat k - Suc s)" using k by linarith
    then show ?thesis using split False Cons.IH[OF k] by simp
  qed
qed

lemma occurrence_lines_sorted: "sorted (occurrence_lines tok lines)"
  using occurrence_from_sorted[of "\<lambda>l. count_list (line_tokens l) tok" 1 lines]
  by (simp add: occurrence_lines_def enumerate1_def)

lemma occurrence_lines_set:
  "k \<in> set (occurrence_lines tok lines) \<Longrightarrow> 1 \<le> k \<and> k \<le> int (length lines)"
  using occurrence_from_set[of k "\<lambda>l. count_list (line_tokens l) tok" 1 lines]
  by (simp add: occurrence_lines_def enumerate1_def)

lemma occurrence_lines_count:
  "1 \<le> k \<Longrightarrow> k \<le> int (length lines) \<Longrightarrow>
   count_list (occurrence_lines tok lines) k = count_list (line_tokens (lines ! (nat k - 1))) tok"
  using occurrence_from_count[of 1 k lines "\<lambda>l. count_list (line_tokens l) tok"]
  by (simp add: occurrence_lines_def enumerate1_def)

lemma built_index_lines:
  assumes "distinct (dict_keys docs)"
      and "map_of (fold index_document docs []) tok = Some entry"
      and "map_of entry d = Some nums"
  shows "\<exists>lines. map_of docs d = Some lines \<and> nums = occurrence_lines tok lines"
proof -
  let ?ix = "fold index_document docs []"
  have nums: "nums = dict_get (dict_get ?ix tok []) d []"
    using assms(2,3) by (simp add: dict_get_def)
  have "no_empty_lists []" by (simp add: no_empty_lists_def)
  then have "no_empty_lists ?ix" by (rule fold_index_document_no_empty)
  then have nonempty: "nums \<noteq> []"
    using assms(2,3) unfolding no_empty_lists_def by blast
  have cat: "nums = concat (map (\<lambda>(filepath, lines).
                 if filepath = d then occurrence_lines tok lines else []) docs)"
    using fold_index_document_lines[of docs "[]" tok d] nums by (simp add: dict_get_Nil)
  show ?thesis
  proof (cases "map_of docs d")
    case None
    then have "d \<notin> fst ` set docs" by (simp add: map_of_eq_None_iff)
    then have "nums = []" using cat by (simp add: concat_other_documents)
    with nonempty show ?thesis by simp
  next
    case (Some lines)
    have "distinct (map fst docs)" using assms(1) by (simp add: dict_keys_def)
    then have "nums = occurrence_lines tok lines"
      using cat Some by (simp add: concat_one_document)
    with Some show ?thesis by blast
  qed
qed

text \<open>
  Claim C9. After \<^verbatim>\<open>build_index\<close> on a dictionary of documents, take any token, any
  document listed under it and the document's line-number list in the index. The document
  is one of those given; the list is sorted ascending; every listed number is between 1 and
  the number of lines of the document; and every such line number is listed exactly as
  many times as the token occurs among the words of that line.
\<close>

theorem build_index_line_numbers:
  assumes "distinct (dict_keys docs)"
      and "index (build_index si docs) = Some ix"
      and "map_of ix tok = Some entry"
      and "map_of entry d = Some nums"
  shows "\<exists>lines. map_of docs d = Some lines
           \<and> sorted nums
           \<and> (\<forall>k \<in> set nums. 1 \<le> k \<and> k \<le> int (length lines))
           \<and> (\<forall>k. 1 \<le> k \<and> k \<le> int (length lines) \<longrightarrow>
                  count_list nums k = count_list (line_tokens (lines ! (nat k - 1))) tok)"
proof -
  have ix: "ix = fold index_document docs []"
    using assms(2) by (simp add: build_index_def)
  obtain lines where lines: "map_of docs d = Some lines" "nums = occurrence_lines tok lines"
    using built_index_lines[OF assms(1) assms(3)[unfolded ix] assms(4)] by blast
  have 1: "sorted nums" unfolding lines(2) by (rule occurrence_lines_sorted)
  have 2: "\<forall>k \<in> set nums. 1 \<le> k \<and> k \<le> int (length lines)"
    unfolding lines(2) using occurrence_lines_set by blast
  have 3: "\<forall>k. 1 \<le> k \<and> k \<le> int (length lines) \<longrightarrow>
                  count_list nums k = count_list (line_tokens (lines ! (nat k - 1))) tok"
    unfolding lines(2) using occurrence_lines_count by blast
  from lines(1) 1 2 3 show ?thesis by blast
qed

theorem build_index_line_numbers_witness:
  "distinct (dict_keys [(''a.txt'', [''The cat sat.'', ''A cat ran; the CAT hid.''])])
   \<and> index (build_index SimpleIndexer_new [(''a.txt'', [''The cat sat.'', ''A cat ran; the CAT hid.''])])
       = Some (fold index_document [(''a.txt'', [''The cat sat.'', ''A cat ran; the CAT hid.''])] [])
   \<and> map_of (fold index_document [(''a.txt'', [''The cat sat.'', ''A cat ran; the CAT hid.''])] [])
         ''cat'' = Some [(''a.txt'', [1, 2, 2])]
   \<and> map_of [(''a.txt'', [1, 2, 2 :: int])] ''a.txt'' = Some [1, 2, 2]
   \<and> (\<exists>lines. map_of [(''a.txt'', [''The cat sat.'', ''A cat ran; the CAT hid.''])] ''a.txt''
                  = Some lines
         \<and> sorted [1, 2, 2 :: int]
         \<and> (\<forall>k \<in> set [1, 2, 2 :: int]. 1 \<le> k \<and> k \<le> int (length lines))
         \<and> (\<forall>k. 1 \<le> k \<and> k \<le> int (length lines) \<longrightarrow>
                count_list [1, 2, 2] k = count_list (line_tokens (lines ! (nat k - 1))) ''cat''))"
proof -
  let ?docs = "[(''a.txt'', [''The cat sat.'', ''A cat ran; the CAT hid.''])]"
  have a: "distinct (dict_keys ?docs)" by (simp add: dict_keys_def)
  have b: "index (build_index SimpleIndexer_new ?docs) = Some (fold index_document ?docs [])"
    by (simp add: build_index_def)
  have c: "map_of (fold index_document ?docs []) ''cat'' = Some [(''a.txt'', [1, 2, 2])]"
    by code_simp
  have d: "map_of [(''a.txt'', [1, 2, 2 :: int])] ''a.txt'' = Some [1, 2, 2]" by simp
  from a b c d build_index_line_numbers[OF a b c d] show ?thesis by (intro conjI)
qed

subsection \<open>Retrieval: the OR mode\<close>

lemma map_of_Some_dict_get:
  "map_of d k = Some v \<longleftrightarrow> dict_contains d k \<and> dict_get d k dflt = v"
  by (auto simp: dict_contains_def dict_get_def)

lemma add_score_get:
  "dict_get (add_score r mot filepath D) d 0 =
     dict_get D d 0 + (if d = filepath then doc_freq r filepath mot else 0)"
  by (auto simp: add_score_def Let_def dict_get_def dict_contains_def map_of_dict_set
           split: option.splits)

lemma add_score_contains:
  "dict_contains (add_score r mot filepath D) d = (d = filepath \<or> dict_contains D d)"
  by (auto simp: add_score_def Let_def dict_contains_dict_set)

lemma add_score_distinct:
  "distinct (dict_keys D) \<Longrightarrow> distinct (dict_keys (add_score r mot filepath D))"
  by (simp add: add_score_def Let_def distinct_dict_set)

lemma fold_add_score_get:
  "dict_get (fold (add_score r mot) fps D) d 0 =
     dict_get D d 0 + int (count_list fps d) * doc_freq r d mot"
  by (induction fps arbitrary: D) (auto simp: add_score_get algebra_simps)

lemma fold_add_score_contains:
  "dict_contains (fold (add_score r mot) fps D) d = (d \<in> set fps \<or> dict_contains D d)"
  by (induction fps arbitrary: D) (auto simp: add_score_contains)

lemma fold_add_score_distinct:
  "distinct (dict_keys D) \<Longrightarrow> distinct (dict_keys (fold (add_score r mot) fps D))"
  by (induction fps arbitrary: D) (auto simp: add_score_distinct)

lemma keys_Nil_absent: "\<not> dict_contains ix mot \<Longrightarrow> dict_keys (dict_get ix mot []) = []"
  by (simp add: dict_contains_def dict_get_def dict_keys_def)

lemma score_keyword_contains:
  "dict_contains (score_keyword r kw D) d =
     (d \<in> set (dict_keys (dict_get (r_index r) (lower kw) [])) \<or> dict_contains D d)"
  by (auto simp: score_keyword_def Let_def fold_add_score_contains keys_Nil_absent)

lemma score_keyword_distinct:
  "distinct (dict_keys D) \<Longrightarrow> distinct (dict_keys (score_keyword r kw D))"
  by (simp add: score_keyword_def Let_def fold_add_score_distinct)

lemma score_keyword_get_general:
  "dict_get (score_keyword r kw D) d 0 =
     dict_get D d 0
       + int (count_list (dict_keys (dict_get (r_index r) (lower kw) [])) d) * doc_freq r d (lower kw)"
  by (auto simp: score_keyword_def Let_def fold_add_score_get keys_Nil_absent)

lemma entry_distinct:
  "entries_are_dicts ix \<Longrightarrow> distinct (dict_keys (dict_get ix mot []))"
proof (cases "map_of ix mot")
  case None
  then show ?thesis by (simp add: dict_get_def dict_keys_def)
next
  case (Some entry)
  assume "entries_are_dicts ix"
  moreover have "(mot, entry) \<in> set ix" using Some by (rule map_of_SomeD)
  ultimately have "distinct (dict_keys entry)"
    by (auto simp: entries_are_dicts_def list_all_iff)
  then show ?thesis using Some by (simp add: dict_get_def)
qed

lemma count_list_distinct:
  "distinct xs \<Longrightarrow> count_list xs x = (if x \<in> set xs then 1 else 0)"
  by (induction xs) auto

lemma score_keyword_get:
  assumes "entries_are_dicts (r_index r)"
  shows "dict_get (score_keyword r kw D) d 0 =
     dict_get D d 0
       + (if dict_contains (r_index r) (lower kw)
             \<and> d \<in> set (dict_keys (dict_get (r_index r) (lower kw) []))
          then doc_freq r d (lower kw) else 0)"
proof -
  have "distinct (dict_keys (dict_get (r_index r) (lower kw) []))"
    using assms by (rule entry_distinct)
  then have "count_list (dict_keys (dict_get (r_index r) (lower kw) [])) d =
      (if d \<in> set (dict_keys (dict_get (r_index r) (lower kw) [])) then 1 else 0)"
    by (rule count_list_distinct)
  moreover have "d \<in> set (dict_keys (dict_get (r_index r) (lower kw) []))
      \<Longrightarrow> dict_contains (r_index r) (lower kw)"
    by (rule ccontr) (simp add: keys_Nil_absent)
  ultimately show ?thesis by (auto simp: score_keyword_get_general)
qed

lemma fold_score_keyword_distinct:
  "distinct (dict_keys D) \<Longrightarrow> distinct (dict_keys (fold (score_keyword r) ks D))"
  by (induction ks arbitrary: D) (auto simp: score_keyword_distinct)

lemma map_of_ranking:
  assumes "distinct (dict_keys items)"
  shows "map_of (sorted_by_value_reverse items) = map_of items"
proof -
  have d: "distinct (map fst items)" using assms by (simp add: dict_keys_def)
  then have "distinct items" and "inj_on fst (set items)" by (simp_all add: distinct_map)
  then have "distinct (map fst (sorted_by_value_reverse items))"
    by (simp add: distinct_map sorted_by_value_reverse_def)
  moreover have "set (sorted_by_value_reverse items) = set items"
    by (simp add: sorted_by_value_reverse_def)
  ultimately show ?thesis using d by (simp add: map_of_inject_set)
qed

lemma map_of_retrieve:
  "map_of (retrieve r ks) = map_of (fold (score_keyword r) ks [])"
proof (cases "ks = []")
  case True
  then show ?thesis by (simp add: retrieve_def)
next
  case False
  have "distinct (dict_keys (fold (score_keyword r) ks []))"
    by (rule fold_score_keyword_distinct) (simp add: dict_keys_def)
  then show ?thesis using False by (simp add: retrieve_def map_of_ranking)
qed

lemma score_of_retrieve:
  "score_of (retrieve r ks) d = dict_get (fold (score_keyword r) ks []) d 0"
  by (simp add: score_of_def dict_get_def map_of_retrieve)

lemma listed_in_retrieve:
  "d \<in> fst ` set (retrieve r ks) \<longleftrightarrow> dict_contains (fold (score_keyword r) ks []) d"
proof -
  have "d \<in> fst ` set (retrieve r ks) \<longleftrightarrow> map_of (retrieve r ks) d \<noteq> None"
    by (simp add: map_of_eq_None_iff)
  then show ?thesis by (simp add: map_of_retrieve dict_contains_def)
qed

lemma retrieve_step_score:
  assumes "entries_are_dicts (r_index r)"
  shows "score_of (retrieve r (ks @ [k])) d =
     score_of (retrieve r ks) d
       + (if dict_contains (r_index r) (lower k)
             \<and> d \<in> set (dict_keys (dict_get (r_index r) (lower k) []))
          then doc_freq r d (lower k) else 0)"
  by (simp only: score_of_retrieve fold_append comp_apply fold_simps score_keyword_get[OF assms])

lemma retrieve_step_listed:
  "d \<in> fst ` set (retrieve r (ks @ [k])) \<longleftrightarrow>
     d \<in> fst ` set (retrieve r ks) \<or> d \<in> set (dict_keys (dict_get (r_index r) (lower k) []))"
  by (simp only: listed_in_retrieve fold_append comp_apply fold_simps score_keyword_contains) blast

lemma doc_freq_nonneg:
  assumes "counts_nonneg (r_freq_per_doc r)"
  shows "0 \<le> doc_freq r d mot"
proof (cases "map_of (r_freq_per_doc r) d")
  case None
  then show ?thesis by (simp add: doc_freq_def dict_get_def)
next
  case (Some counter)
  then have "(d, counter) \<in> set (r_freq_per_doc r)" by (rule map_of_SomeD)
  then have c: "list_all (\<lambda>(w, n). 0 \<le> n) counter"
    using assms by (auto simp: counts_nonneg_def list_all_iff)
  show ?thesis
  proof (cases "map_of counter mot")
    case None
    then show ?thesis using Some by (simp add: doc_freq_def dict_get_def)
  next
    case (Some n)
    then have "(mot, n) \<in> set counter" by (rule map_of_SomeD)
    then have "0 \<le> n" using c by (auto simp: list_all_iff)
    then show ?thesis using Some \<open>map_of (r_freq_per_doc r) d = Some counter\<close>
      by (simp add: doc_freq_def dict_get_def)
  qed
qed

lemma score_keyword_mono:
  assumes "counts_nonneg (r_freq_per_doc r)"
  shows "dict_get D d 0 \<le> dict_get (score_keyword r kw D) d 0"
  using doc_freq_nonneg[OF assms, of d "lower kw"]
  by (simp add: score_keyword_get_general)

text \<open>The tables that \<^verbatim>\<open>compute_frequency_per_document\<close> builds hold no negative count.\<close>

lemma per_doc_counters_counted:
  "\<forall>c \<in> snd ` set d0. \<exists>tokens. c = Counter tokens \<Longrightarrow>
   \<forall>c \<in> snd ` set (fold (\<lambda>(filepath, tokens) d. dict_set d filepath (Counter tokens)) docs d0).
      \<exists>tokens. c = Counter tokens"
proof (induction docs arbitrary: d0)
  case Nil
  then show ?case by simp
next
  case (Cons a docs)
  obtain p toks where a: "a = (p, toks)" by (cases a)
  have "\<forall>c \<in> snd ` set (dict_set d0 p (Counter toks)). \<exists>tokens. c = Counter tokens"
    using Cons.prems set_dict_set_subset[of d0 p "Counter toks"] by fastforce
  from Cons.IH[OF this] show ?case by (simp add: a)
qed

lemma computed_counts_nonneg:
  assumes "freq_per_doc (compute_frequency_per_document fa docs) = Some per_doc"
  shows "counts_nonneg per_doc"
proof -
  have per: "per_doc = fold (\<lambda>(filepath, tokens) d. dict_set d filepath (Counter tokens)) docs []"
    using assms by (simp add: compute_frequency_per_document_def)
  have "\<forall>c \<in> snd ` set per_doc. \<exists>tokens. c = Counter tokens"
    unfolding per by (rule per_doc_counters_counted) simp
  then have "\<forall>(filepath, counter) \<in> set per_doc. \<forall>(w, n) \<in> set counter. 0 \<le> n"
    using Counter_items by fastforce
  then show ?thesis by (simp add: counts_nonneg_def list_all_iff)
qed

subsection \<open>Retrieval: the AND mode\<close>

lemma set_docs_for_mot:
  "set (docs_for_mot r kw) = set (dict_keys (dict_get (r_index r) (lower kw) []))"
  by (simp add: docs_for_mot_def)

lemma set_intersection_Cons:
  "set (set_intersection (s # others)) = set s \<inter> {x. \<forall>t \<in> set others. x \<in> set t}"
  by (auto simp: set_intersection_def list_all_iff)

lemma set_intersection_keywords:
  "ks \<noteq> [] \<Longrightarrow>
   set (set_intersection (map (docs_for_mot r) ks)) = (\<Inter>kw \<in> set ks. set (docs_for_mot r kw))"
  by (cases ks) (auto simp: set_intersection_Cons)

lemma and_score_sum:
  "fold (\<lambda>kw score. score + f kw) ks (a :: int) = a + sum_list (map f ks)"
  by (induction ks arbitrary: a) (auto simp: algebra_simps)

lemma keys_of_scored: "fst ` set (map (\<lambda>x. (x, g x)) xs) = set xs"
  by (induction xs) auto

lemma and_score_snoc:
  "and_score r (ks @ [k]) d = and_score r ks d + doc_freq r d (lower k)"
  by (simp add: and_score_def)

lemma and_results:
  assumes "(d, a) \<in> set (boolean_and_retrieve set_order r ks)" and "visits_the_set set_order"
  shows "ks \<noteq> [] \<and> (\<forall>kw \<in> set ks. d \<in> set (docs_for_mot r kw)) \<and> a = and_score r ks d"
proof -
  have ne: "ks \<noteq> []" using assms(1) by (auto simp: boolean_and_retrieve_def)
  then have "(d, a) \<in> set (map (\<lambda>filepath. (filepath, and_score r ks filepath))
                (set_order (set_intersection (map (docs_for_mot r) ks))))"
    using assms(1) by (simp add: boolean_and_retrieve_def Let_def sorted_by_value_reverse_def)
  then have "d \<in> set (set_order (set_intersection (map (docs_for_mot r) ks)))"
    and a: "a = and_score r ks d" by auto
  then have "d \<in> set (set_intersection (map (docs_for_mot r) ks))"
    using assms(2) by (simp add: visits_the_set_def)
  then have "\<forall>kw \<in> set ks. d \<in> set (docs_for_mot r kw)"
    using ne by (simp add: set_intersection_keywords)
  with ne a show ?thesis by blast
qed

lemma and_listed:
  assumes "visits_the_set set_order" and "ks \<noteq> []"
  shows "d \<in> fst ` set (boolean_and_retrieve set_order r ks) \<longleftrightarrow>
           (\<forall>kw \<in> set ks. d \<in> set (docs_for_mot r kw))"
proof -
  have "fst ` set (boolean_and_retrieve set_order r ks) =
          set (set_order (set_intersection (map (docs_for_mot r) ks)))"
    using assms(2)
    by (simp add: boolean_and_retrieve_def Let_def sorted_by_value_reverse_def keys_of_scored
          del: set_map)
  also have "\<dots> = (\<Inter>kw \<in> set ks. set (docs_for_mot r kw))"
    using assms by (simp add: visits_the_set_def set_intersection_keywords)
  finally show ?thesis by simp
qed

lemma and_score_of:
  assumes "visits_the_set set_order"
      and "d \<in> fst ` set (boolean_and_retrieve set_order r ks)"
  shows "score_of (boolean_and_retrieve set_order r ks) d = and_score r ks d"
proof -
  from assms(2) obtain a where "map_of (boolean_and_retrieve set_order r ks) d = Some a"
    by (cases "map_of (boolean_and_retrieve set_order r ks) d")
       (simp_all add: map_of_eq_None_iff)
  moreover from this have "(d, a) \<in> set (boolean_and_retrieve set_order r ks)"
    by (rule map_of_SomeD)
  then have "a = and_score r ks d" using and_results[OF _ assms(1)] by blast
  ultimately show ?thesis by (simp add: score_of_def dict_get_def)
qed

lemma or_score_closed_form:
  assumes "entries_are_dicts (r_index r)"
  shows "dict_get (fold (score_keyword r) ks D) d 0 =
     dict_get D d 0
       + (\<Sum>kw \<leftarrow> ks. if dict_contains (r_index r) (lower kw)
                           \<and> d \<in> set (dict_keys (dict_get (r_index r) (lower kw) []))
                        then doc_freq r d (lower kw) else 0)"
  by (induction ks arbitrary: D) (simp_all add: score_keyword_get[OF assms])

lemma and_score_closed_form:
  "and_score r ks d = (\<Sum>kw \<leftarrow> ks. doc_freq r d (lower kw))"
  by (simp add: and_score_def and_score_sum)

lemma and_score_equals_or_score:
  assumes "entries_are_dicts (r_index r)"
      and "\<forall>kw \<in> set ks. d \<in> set (docs_for_mot r kw)"
  shows "and_score r ks d = score_of (retrieve r ks) d"
proof -
  have "(\<Sum>kw \<leftarrow> ks. if dict_contains (r_index r) (lower kw)
                           \<and> d \<in> set (dict_keys (dict_get (r_index r) (lower kw) []))
                        then doc_freq r d (lower kw) else 0)
        = (\<Sum>kw \<leftarrow> ks. doc_freq r d (lower kw))"
  proof (rule arg_cong[where f = sum_list], rule map_cong[OF refl])
    fix kw assume "kw \<in> set ks"
    then have l: "d \<in> set (dict_keys (dict_get (r_index r) (lower kw) []))"
      using assms(2) by (simp add: set_docs_for_mot)
    then have "dict_contains (r_index r) (lower kw)"
      by - (rule ccontr, simp add: keys_Nil_absent)
    with l show "(if dict_contains (r_index r) (lower kw)
                           \<and> d \<in> set (dict_keys (dict_get (r_index r) (lower kw) []))
                        then doc_freq r d (lower kw) else 0) = doc_freq r d (lower kw)"
      by simp
  qed
  then show ?thesis
    by (simp add: score_of_retrieve or_score_closed_form[OF assms(1)] and_score_closed_form
          dict_get_Nil)
qed

text \<open>The index and the table of \<open>pets_retriever\<close> are those the code builds from its two documents.\<close>

lemma pets_retriever_built:
  "r_index pets_retriever =
     fold index_document [(''a.txt'', [''A cat.'']), (''b.txt'', [''Cat, dog; dog!''])] []
   \<and> freq_per_doc (compute_frequency_per_document FrequencyAnalyzer_new
         [(''a.txt'', clean_and_tokenize ''A cat.''),
          (''b.txt'', clean_and_tokenize ''Cat, dog; dog!'')])
       = Some (r_freq_per_doc pets_retriever)"
  by code_simp

subsection \<open>Retrieval: the claims\<close>

text \<open>
  Claim C4. For every keyword list and every retriever whose index entries are
  dictionaries, whatever the order in which Python iterates the intersection set: every
  document that \<^verbatim>\<open>boolean_and_retrieve\<close> returns is listed in the index under one of the
  keywords (lowercased), and a document that both \<^verbatim>\<open>boolean_and_retrieve\<close> and
  \<^verbatim>\<open>retrieve\<close> return for the keyword list has an AND-mode score that is at most its OR-mode
  score. The frequency table is arbitrary.
\<close>

theorem and_mode_within_or_mode:
  assumes "visits_the_set set_order" and "entries_are_dicts (r_index r)"
  shows "fst ` set (boolean_and_retrieve set_order r keywords)
           \<subseteq> (\<Union>kw \<in> set keywords. set (dict_keys (dict_get (r_index r) (lower kw) [])))
       \<and> (\<forall>d a b. map_of (boolean_and_retrieve set_order r keywords) d = Some a
                \<longrightarrow> map_of (retrieve r keywords) d = Some b \<longrightarrow> a \<le> b)"
proof (intro conjI subsetI allI impI)
  fix d assume "d \<in> fst ` set (boolean_and_retrieve set_order r keywords)"
  then obtain a where "(d, a) \<in> set (boolean_and_retrieve set_order r keywords)" by auto
  from and_results[OF this assms(1)]
  have "keywords \<noteq> []" "\<forall>kw \<in> set keywords. d \<in> set (docs_for_mot r kw)" by simp_all
  then obtain kw where "kw \<in> set keywords" "d \<in> set (docs_for_mot r kw)"
    by (cases "keywords") auto
  then show "d \<in> (\<Union>kw \<in> set keywords. set (dict_keys (dict_get (r_index r) (lower kw) [])))"
    by (auto simp: set_docs_for_mot)
next
  fix d a b
  assume a: "map_of (boolean_and_retrieve set_order r keywords) d = Some a"
     and b: "map_of (retrieve r keywords) d = Some b"
  from a have "(d, a) \<in> set (boolean_and_retrieve set_order r keywords)" by (rule map_of_SomeD)
  from and_results[OF this assms(1)]
  have "\<forall>kw \<in> set keywords. d \<in> set (docs_for_mot r kw)" "a = and_score r keywords d"
    by simp_all
  then have "a = score_of (retrieve r keywords) d"
    using and_score_equals_or_score[OF assms(2)] by simp
  then show "a \<le> b" using b by (simp add: score_of_def dict_get_def)
qed

theorem and_mode_within_or_mode_witness:
  "visits_the_set (\<lambda>xs. xs) \<and> entries_are_dicts (r_index pets_retriever)
   \<and> map_of (boolean_and_retrieve (\<lambda>xs. xs) pets_retriever [''Cat'', ''dog'']) ''b.txt'' = Some 3
   \<and> map_of (retrieve pets_retriever [''Cat'', ''dog'']) ''b.txt'' = Some 3
   \<and> fst ` set (boolean_and_retrieve (\<lambda>xs. xs) pets_retriever [''Cat'', ''dog''])
        \<subseteq> (\<Union>kw \<in> set [''Cat'', ''dog''].
              set (dict_keys (dict_get (r_index pets_retriever) (lower kw) [])))
   \<and> score_of (boolean_and_retrieve (\<lambda>xs. xs) pets_retriever [''Cat'', ''dog'']) ''b.txt''
        \<le> score_of (retrieve pets_retriever [''Cat'', ''dog'']) ''b.txt''"
proof -
  have v: "visits_the_set (\<lambda>xs. xs)" by (simp add: visits_the_set_def)
  have e: "entries_are_dicts (r_index pets_retriever)" by code_simp
  have a: "map_of (boolean_and_retrieve (\<lambda>xs. xs) pets_retriever [''Cat'', ''dog'']) ''b.txt''
             = Some 3" by code_simp
  have b: "map_of (retrieve pets_retriever [''Cat'', ''dog'']) ''b.txt'' = Some 3" by code_simp
  note t = and_mode_within_or_mode[OF v e, of "[''Cat'', ''dog'']"]
  from t have s: "fst ` set (boolean_and_retrieve (\<lambda>xs. xs) pets_retriever [''Cat'', ''dog''])
        \<subseteq> (\<Union>kw \<in> set [''Cat'', ''dog''].
              set (dict_keys (dict_get (r_index pets_retriever) (lower kw) [])))"
    by (rule conjunct1)
  from t a b have "(3::int) \<le> 3" by blast
  then have l: "score_of (boolean_and_retrieve (\<lambda>xs. xs) pets_retriever [''Cat'', ''dog'']) ''b.txt''
        \<le> score_of (retrieve pets_retriever [''Cat'', ''dog'']) ''b.txt''"
    using a b by (simp add: score_of_def dict_get_def)
  from v e a b s l show ?thesis by (intro conjI)
qed

text \<open>
  Claim C5. In OR mode, for every keyword list \<open>ks\<close>, every further keyword \<open>k\<close> and every
  document \<open>d\<close> that \<^verbatim>\<open>retrieve\<close> scores for \<open>ks\<close>, the document is also scored for \<open>ks\<close>
  followed by \<open>k\<close>, and its score there is at least its score for \<open>ks\<close>. The frequency table
  is one of occurrence counts: it holds no negative count, as every table that
  \<^verbatim>\<open>compute_frequency_per_document\<close> builds (lemma \<open>computed_counts_nonneg\<close>).
\<close>

theorem or_mode_monotone:
  assumes "counts_nonneg (r_freq_per_doc r)"
      and "map_of (retrieve r ks) d = Some s"
  shows "\<exists>s'. map_of (retrieve r (ks @ [k])) d = Some s' \<and> s \<le> s'"
proof -
  let ?D = "fold (score_keyword r) ks []"
  have 1: "dict_contains ?D d" "dict_get ?D d 0 = s"
    using assms(2) by (simp_all add: map_of_retrieve dict_contains_def dict_get_def)
  have 2: "dict_contains (score_keyword r k ?D) d"
    using 1 by (simp add: score_keyword_contains)
  have 3: "s \<le> dict_get (score_keyword r k ?D) d 0"
    using score_keyword_mono[OF assms(1), of ?D d k] 1 by simp
  have "map_of (retrieve r (ks @ [k])) d = Some (dict_get (score_keyword r k ?D) d 0)"
    using 2 by (simp add: map_of_retrieve map_of_Some_dict_get[where dflt = 0])
  with 3 show ?thesis by blast
qed

theorem or_mode_monotone_witness:
  "counts_nonneg (r_freq_per_doc pets_retriever)
   \<and> map_of (retrieve pets_retriever [''cat'']) ''b.txt'' = Some 1
   \<and> (\<exists>s'. map_of (retrieve pets_retriever ([''cat''] @ [''Dog''])) ''b.txt'' = Some s' \<and> 1 \<le> s')"
proof -
  have c: "counts_nonneg (r_freq_per_doc pets_retriever)" by code_simp
  have m: "map_of (retrieve pets_retriever [''cat'']) ''b.txt'' = Some 1" by code_simp
  from c m or_mode_monotone[OF c m, of "''Dog''"] show ?thesis by (intro conjI)
qed

text \<open>
  Claim C10, as the code has it. For every keyword list \<open>ks\<close>, keyword \<open>k\<close> and document \<open>d\<close>:
  the score of \<open>d\<close> under \<^verbatim>\<open>retrieve\<close> for \<open>ks\<close> followed by \<open>k\<close> is its score for \<open>ks\<close> plus the
  frequency-table count of \<open>d\<close> for the lowercased \<open>k\<close> when \<open>k\<close> is in the index and \<open>d\<close> is
  listed under it, and plus 0 otherwise; and a document that \<^verbatim>\<open>boolean_and_retrieve\<close>
  returns for \<open>ks\<close> followed by \<open>k\<close> has there its AND-mode score for \<open>ks\<close> plus its count for
  the lowercased \<open>k\<close>. So each repetition of a keyword adds its contribution once more, in
  both modes. A document without a score is read as having the score 0.
\<close>

theorem keyword_step_amended:
  assumes "visits_the_set set_order" and "entries_are_dicts (r_index r)"
  shows "score_of (retrieve r (ks @ [k])) d =
           score_of (retrieve r ks) d
             + (if dict_contains (r_index r) (lower k)
                   \<and> d \<in> set (dict_keys (dict_get (r_index r) (lower k) []))
                then doc_freq r d (lower k) else 0)
       \<and> (d \<in> fst ` set (boolean_and_retrieve set_order r (ks @ [k])) \<longrightarrow>
            score_of (boolean_and_retrieve set_order r (ks @ [k])) d =
              score_of (boolean_and_retrieve set_order r ks) d + doc_freq r d (lower k))"
proof (intro conjI impI)
  show "score_of (retrieve r (ks @ [k])) d =
           score_of (retrieve r ks) d
             + (if dict_contains (r_index r) (lower k)
                   \<and> d \<in> set (dict_keys (dict_get (r_index r) (lower k) []))
                then doc_freq r d (lower k) else 0)"
    by (rule retrieve_step_score[OF assms(2)])
next
  assume d: "d \<in> fst ` set (boolean_and_retrieve set_order r (ks @ [k]))"
  have new: "score_of (boolean_and_retrieve set_order r (ks @ [k])) d = and_score r (ks @ [k]) d"
    by (rule and_score_of[OF assms(1) d])
  have old: "score_of (boolean_and_retrieve set_order r ks) d = and_score r ks d"
  proof (cases "ks = []")
    case True
    then show ?thesis
      by (simp add: boolean_and_retrieve_def score_of_def dict_get_def and_score_def)
  next
    case False
    have "\<forall>kw \<in> set (ks @ [k]). d \<in> set (docs_for_mot r kw)"
      using d and_listed[OF assms(1), of "ks @ [k]" d r] by simp
    then have "d \<in> fst ` set (boolean_and_retrieve set_order r ks)"
      using and_listed[OF assms(1) False, of d r] by simp
    then show ?thesis by (rule and_score_of[OF assms(1)])
  qed
  show "score_of (boolean_and_retrieve set_order r (ks @ [k])) d =
              score_of (boolean_and_retrieve set_order r ks) d + doc_freq r d (lower k)"
    by (simp only: new old and_score_snoc)
qed

theorem keyword_step_witness:
  "visits_the_set (\<lambda>xs. xs) \<and> entries_are_dicts (r_index pets_retriever)
   \<and> score_of (retrieve pets_retriever ([''cat''] @ [''Dog''])) ''b.txt'' =
           score_of (retrieve pets_retriever [''cat'']) ''b.txt''
             + (if dict_contains (r_index pets_retriever) (lower ''Dog'')
                   \<and> ''b.txt'' \<in> set (dict_keys (dict_get (r_index pets_retriever) (lower ''Dog'') []))
                then doc_freq pets_retriever ''b.txt'' (lower ''Dog'') else 0)
   \<and> ''b.txt'' \<in> fst ` set (boolean_and_retrieve (\<lambda>xs. xs) pets_retriever ([''cat''] @ [''Dog'']))
   \<and> score_of (boolean_and_retrieve (\<lambda>xs. xs) pets_retriever ([''cat''] @ [''Dog''])) ''b.txt'' =
       score_of (boolean_and_retrieve (\<lambda>xs. xs) pets_retriever [''cat'']) ''b.txt''
         + doc_freq pets_retriever ''b.txt'' (lower ''Dog'')"
proof -
  have v: "visits_the_set (\<lambda>xs. xs)" by (simp add: visits_the_set_def)
  have e: "entries_are_dicts (r_index pets_retriever)" by code_simp
  have l: "''b.txt'' \<in> fst ` set (boolean_and_retrieve (\<lambda>xs. xs) pets_retriever ([''cat''] @ [''Dog'']))"
    by code_simp
  note t = keyword_step_amended[OF v e, of "[''cat'']" "''Dog''" "''b.txt''"]
  from t have 1: "score_of (retrieve pets_retriever ([''cat''] @ [''Dog''])) ''b.txt'' =
           score_of (retrieve pets_retriever [''cat'']) ''b.txt''
             + (if dict_contains (r_index pets_retriever) (lower ''Dog'')
                   \<and> ''b.txt'' \<in> set (dict_keys (dict_get (r_index pets_retriever) (lower ''Dog'') []))
                then doc_freq pets_retriever ''b.txt'' (lower ''Dog'') else 0)"
    by (rule conjunct1)
  from t l have 2: "score_of (boolean_and_retrieve (\<lambda>xs. xs) pets_retriever ([''cat''] @ [''Dog''])) ''b.txt'' =
       score_of (boolean_and_retrieve (\<lambda>xs. xs) pets_retriever [''cat'']) ''b.txt''
         + doc_freq pets_retriever ''b.txt'' (lower ''Dog'')"
    by (elim conjE) (erule mp)
  from v e 1 l 2 show ?thesis by (intro conjI)
qed

text \<open>
  Claim C10 as stated adds the document's count for \<open>k\<close> whenever \<open>k\<close> is in the index. With
  an index that does not list \<^verbatim>\<open>a.txt\<close> under dog and a frequency table that counts dog five
  times in \<^verbatim>\<open>a.txt\<close>, adding the keyword dog leaves the score of \<^verbatim>\<open>a.txt\<close> at 1.
\<close>

theorem keyword_step_stale_index_counterexample:
  "\<not> (score_of (retrieve stale_retriever ([''cat''] @ [''dog''])) ''a.txt'' =
        score_of (retrieve stale_retriever [''cat'']) ''a.txt''
          + (if dict_contains (r_index stale_retriever) (lower ''dog'')
             then doc_freq stale_retriever ''a.txt'' (lower ''dog'') else 0))"
  by code_simp

lemma stale_scores:
  "retrieve stale_retriever [''cat''] = [(''a.txt'', 1)]
   \<and> retrieve stale_retriever [''cat'', ''dog''] = [(''a.txt'', 1), (''b.txt'', 1)]
   \<and> doc_freq stale_retriever ''a.txt'' ''dog'' = 5"
  by code_simp

end
